theory Spec2Isabelle
  imports Main "HOL-Library.Multiset"
begin

section \<open>The priority queue of src/functions/pluck.ts\<close>

text \<open>
  The class \<^verbatim>\<open>PriorityQueue<T>\<close> is a binary min-heap stored in an array of entries;
  an entry pairs a value with the sequence id it received at insertion. The embedding
  below follows the class method by method.

  \<^item> JavaScript numbers are modelled as unbounded integers (\<open>int\<close>): sequence ids,
    comparator results and numeric values. Array indices are \<open>nat\<close>.
  \<^item> An exception thrown by the comparator is a value \<open>Inl e\<close> of the comparator's
    result; every method that can call the comparator returns its outcome together with
    the state of the queue at the moment it returned or threw, so that the state left
    behind by a throw is part of the model.
  \<^item> A comparator is a function of its two arguments: it reads and writes no state.
  \<^item> The \<open>null\<close> returned by \<open>peek\<close> and \<open>dequeue\<close> on an empty queue is \<open>None\<close>. The
    values of type \<open>'a\<close> stand for the values of \<open>T\<close> other than \<open>null\<close> and
    \<open>undefined\<close>: for those \<open>peek\<close> and \<open>dequeue\<close> return the value itself, \<open>Some v\<close>. A
    stored \<open>null\<close> or \<open>undefined\<close>, which \<^verbatim>\<open>?? null\<close> in \<open>peek\<close> turns into \<open>null\<close>, is
    not a value of the model.
\<close>

subsection \<open>Data model\<close>

datatype error = Error string | TypeError

type_synonym 'a Comparator = "'a \<Rightarrow> 'a \<Rightarrow> error + int"

text \<open>\<^verbatim>\<open>type Entry<T> = { value: T; id: number }\<close>\<close>

record 'a Entry =
  value_of :: 'a
  id_of :: int

text \<open>The three private fields of the class.\<close>

record 'a PriorityQueue =
  heap :: "'a Entry list"
  comparator :: "'a Comparator"
  seq :: int

subsection \<open>Index arithmetic and private helpers\<close>

text \<open>
  \<open>getParent\<close> is \<^verbatim>\<open>Math.floor((idx - 1) / 2)\<close>. Its only call site is inside the loop of
  \<open>siftUp\<close>, under the guard \<open>i > 0\<close>, where the truncating subtraction on \<open>nat\<close> agrees
  with the source.
\<close>

definition getParent :: "nat \<Rightarrow> nat" where
  "getParent idx = (idx - 1) div 2"

definition getRight :: "nat \<Rightarrow> nat" where
  "getRight idx = 2 * idx + 2"

definition getLeft :: "nat \<Rightarrow> nat" where
  "getLeft idx = 2 * idx + 1"

text \<open>
  \<^verbatim>\<open>const c = this.comparator(a.value, b.value); return c !== 0 ? c : a.id - b.id;\<close>
\<close>

definition compareEntries :: "'a Comparator \<Rightarrow> 'a Entry \<Rightarrow> 'a Entry \<Rightarrow> error + int" where
  "compareEntries cmp a b =
     (case cmp (value_of a) (value_of b) of
        Inl e \<Rightarrow> Inl e
      | Inr c \<Rightarrow> Inr (if c \<noteq> 0 then c else id_of a - id_of b))"

text \<open>
  \<open>swap\<close> exchanges two slots of the array. Every call passes two indices inside the
  array (\<open>siftUp\<close>: \<open>p < i < length\<close>; \<open>siftDown\<close>: \<open>i < smallest < n\<close>).
\<close>

definition swap :: "'a list \<Rightarrow> nat \<Rightarrow> nat \<Rightarrow> 'a list" where
  "swap h a b = (let tmp = h ! a in (h[a := h ! b])[b := tmp])"

text \<open>
  \<open>siftUp\<close>: the loop \<^verbatim>\<open>while (i > 0)\<close>. The result is the error thrown, if any, and the
  array as the loop left it. Reading \<open>this.heap[i]\<close> beyond the array gives \<open>undefined\<close>,
  and \<open>compareEntries\<close> then throws a TypeError on \<open>a.value\<close>.
\<close>

function siftUp :: "'a Comparator \<Rightarrow> 'a Entry list \<Rightarrow> nat \<Rightarrow> error option \<times> 'a Entry list" where
  "siftUp cmp h i =
     (if i > 0 then
        (let p = getParent i in
         if i \<ge> length h then (Some TypeError, h)
         else (case compareEntries cmp (h ! i) (h ! p) of
                 Inl e \<Rightarrow> (Some e, h)
               | Inr c \<Rightarrow> if c \<ge> 0 then (None, h) else siftUp cmp (swap h i p) p))
      else (None, h))"
  by pat_completeness auto
termination
  by (relation "measure (\<lambda>(cmp, h, i). i)") (auto simp: getParent_def)

text \<open>
  One round of the loop of \<open>siftDown\<close> up to the test \<^verbatim>\<open>smallest === i\<close>: the two guarded
  comparisons that choose \<open>smallest\<close>. The \<^verbatim>\<open>&&\<close> calls the comparator only for a child
  that exists.
\<close>

definition smallest_of :: "'a Comparator \<Rightarrow> 'a Entry list \<Rightarrow> nat \<Rightarrow> error + nat" where
  "smallest_of cmp h i =
     (let n = length h; left = getLeft i; right = getRight i in
      case (if left < n then
              (case compareEntries cmp (h ! left) (h ! i) of
                 Inl e \<Rightarrow> Inl e
               | Inr c \<Rightarrow> Inr (if c < 0 then left else i))
            else Inr i) of
        Inl e \<Rightarrow> Inl e
      | Inr smallest \<Rightarrow>
          (if right < n then
             (case compareEntries cmp (h ! right) (h ! smallest) of
                Inl e \<Rightarrow> Inl e
              | Inr c \<Rightarrow> Inr (if c < 0 then right else smallest))
           else Inr smallest))"

lemma smallest_of_range:
  "smallest_of cmp h i = Inr s \<Longrightarrow> s \<noteq> i \<Longrightarrow> i < s \<and> s < length h"
  by (auto simp: smallest_of_def Let_def getLeft_def getRight_def
           split: if_splits sum.splits)

lemma length_swap: "length (swap h a b) = length h"
  by (simp add: swap_def)

function siftDown :: "'a Comparator \<Rightarrow> 'a Entry list \<Rightarrow> nat \<Rightarrow> error option \<times> 'a Entry list" where
  "siftDown cmp h i =
     (case smallest_of cmp h i of
        Inl e \<Rightarrow> (Some e, h)
      | Inr smallest \<Rightarrow>
          if smallest = i then (None, h)
          else siftDown cmp (swap h i smallest) smallest)"
  by pat_completeness auto
termination
  by (relation "measure (\<lambda>(cmp, h, i). length h - i)")
     (auto simp: length_swap dest: smallest_of_range)

declare siftUp.simps [simp del]
declare siftDown.simps [simp del]

lemma siftDown_length: "length (snd (siftDown cmp h i)) = length h"
proof (induction cmp h i rule: siftDown.induct)
  case (1 cmp h i)
  show ?case
  proof (cases "smallest_of cmp h i")
    case (Inl e)
    then show ?thesis by (simp add: siftDown.simps [of cmp h i])
  next
    case (Inr s)
    with "1" show ?thesis
      by (simp add: siftDown.simps [of cmp h i] length_swap)
  qed
qed

subsection \<open>Public operations\<close>

definition size_pq :: "'a PriorityQueue \<Rightarrow> nat" where
  "size_pq q = length (heap q)"

definition isEmpty :: "'a PriorityQueue \<Rightarrow> bool" where
  "isEmpty q = (length (heap q) = 0)"

text \<open>\<^verbatim>\<open>return this.heap[0]?.value ?? null;\<close>\<close>

definition peek :: "'a PriorityQueue \<Rightarrow> 'a option" where
  "peek q = (case heap q of [] \<Rightarrow> None | e # _ \<Rightarrow> Some (value_of e))"

text \<open>
  \<open>enqueue\<close>: the entry takes the current counter as its id and the counter is
  incremented (\<^verbatim>\<open>this.seq++\<close>); the entry is pushed; then \<open>siftUp\<close> runs from the last
  index. The state returned is the queue as the method left it, also when it threw.
\<close>

definition enqueue :: "'a PriorityQueue \<Rightarrow> 'a \<Rightarrow> error option \<times> 'a PriorityQueue" where
  "enqueue q v =
     (let entry = \<lparr>value_of = v, id_of = seq q\<rparr>;
          q1 = q\<lparr>seq := seq q + 1\<rparr>;
          q2 = q1\<lparr>heap := heap q1 @ [entry]\<rparr>
      in case siftUp (comparator q2) (heap q2) (length (heap q2) - 1) of
           (r, h') \<Rightarrow> (r, q2\<lparr>heap := h'\<rparr>))"

text \<open>
  \<open>dequeue\<close>: \<open>None\<close> on the empty queue; otherwise the root is recorded, the last entry is
  popped and, if entries remain, written to the root before \<open>siftDown(0)\<close>.
\<close>

definition dequeue :: "'a PriorityQueue \<Rightarrow> (error + 'a option) \<times> 'a PriorityQueue" where
  "dequeue q =
     (if isEmpty q then (Inr None, q)
      else
        (let top = heap q ! 0;
             lst = last (heap q);
             q1 = q\<lparr>heap := butlast (heap q)\<rparr>
         in if \<not> isEmpty q1 then
              (case siftDown (comparator q1) ((heap q1)[0 := lst]) 0 of
                 (Some e, h') \<Rightarrow> (Inl e, q1\<lparr>heap := h'\<rparr>)
               | (None, h') \<Rightarrow> (Inr (Some (value_of top)), q1\<lparr>heap := h'\<rparr>))
            else (Inr (Some (value_of top)), q1)))"

definition clear :: "'a PriorityQueue \<Rightarrow> 'a PriorityQueue" where
  "clear q = q\<lparr>heap := [], seq := 0\<rparr>"

definition toArray :: "'a PriorityQueue \<Rightarrow> 'a list" where
  "toArray q = map value_of (heap q)"

text \<open>
  The loop \<^verbatim>\<open>for (let i = Math.floor(n / 2) - 1; i >= 0; i--) siftDown(i)\<close>, which both
  \<open>setComparator\<close> and \<open>toSortedArray\<close> run. \<open>reheapify cmp h k\<close> runs \<open>siftDown\<close> at
  \<open>k - 1\<close>, \<open>k - 2\<close>, ..., \<open>0\<close> and stops at the first throw; the callers pass
  \<open>k = length h div 2\<close>.
\<close>

fun reheapify :: "'a Comparator \<Rightarrow> 'a Entry list \<Rightarrow> nat \<Rightarrow> error option \<times> 'a Entry list" where
  "reheapify cmp h 0 = (None, h)"
| "reheapify cmp h (Suc i) =
     (case siftDown cmp h i of
        (Some e, h') \<Rightarrow> (Some e, h')
      | (None, h') \<Rightarrow> reheapify cmp h' i)"

definition setComparator ::
  "'a PriorityQueue \<Rightarrow> 'a Comparator \<Rightarrow> error option \<times> 'a PriorityQueue" where
  "setComparator q cmp =
     (let q1 = q\<lparr>comparator := cmp\<rparr>
      in case reheapify (comparator q1) (heap q1) (length (heap q1) div 2) of
           (r, h') \<Rightarrow> (r, q1\<lparr>heap := h'\<rparr>))"

text \<open>A \<open>dequeue\<close> on a queue that is not empty removes one entry, also when it throws.\<close>

lemma dequeue_length:
  "\<not> isEmpty q \<Longrightarrow> length (heap (snd (dequeue q))) = length (heap q) - 1"
proof -
  assume ne: "\<not> isEmpty q"
  let ?h = "(butlast (heap q))[0 := last (heap q)]"
  obtain r h' where sd: "siftDown (comparator q) ?h 0 = (r, h')"
    by (cases "siftDown (comparator q) ?h 0")
  have "length (snd (siftDown (comparator q) ?h 0)) = length (heap q) - 1"
    by (simp add: siftDown_length)
  with sd have "length h' = length (heap q) - 1"
    by simp
  moreover have "butlast (heap q) = [] \<Longrightarrow> length (heap q) \<le> Suc 0"
    using length_butlast [of "heap q"] by simp
  ultimately show ?thesis
    using ne sd by (cases r) (auto simp: dequeue_def isEmpty_def Let_def)
qed

text \<open>
  The loop \<^verbatim>\<open>while (!copy.isEmpty()) out.push(copy.dequeue()!)\<close> of \<open>toSortedArray\<close>:
  dequeue until the queue is empty, collecting the values. On a queue that is not empty
  \<open>dequeue\<close> never returns \<open>None\<close>, so the last branch is never taken.
\<close>

function drain :: "'a PriorityQueue \<Rightarrow> 'a list \<Rightarrow> (error + 'a list) \<times> 'a PriorityQueue" where
  "drain copy out =
     (if isEmpty copy then (Inr out, copy)
      else (case dequeue copy of
              (Inl e, copy') \<Rightarrow> (Inl e, copy')
            | (Inr (Some v), copy') \<Rightarrow> drain copy' (out @ [v])
            | (Inr None, copy') \<Rightarrow> (Inr out, copy')))"
  by pat_completeness auto
termination
proof (relation "measure (\<lambda>(copy, out). length (heap copy))", goal_cases)
  case 1
  show ?case by simp
next
  case (2 copy out x1 copy' r v)
  then have ne: "\<not> isEmpty copy" and "dequeue copy = (Inr (Some v), copy')"
    by simp_all
  then have "copy' = snd (dequeue copy)"
    by simp
  with ne have "length (heap copy') = length (heap copy) - 1"
    by (simp add: dequeue_length)
  with ne show ?case
    by (simp add: isEmpty_def)
qed

declare drain.simps [simp del]

text \<open>
  \<open>toSortedArray\<close>: a new queue with the same comparator receives a clone of every entry
  (value and id) and the counter, is re-heapified and drained. The method never writes
  to \<open>this\<close>; the second component is \<open>this\<close> after the call.
\<close>

definition toSortedArray :: "'a PriorityQueue \<Rightarrow> (error + 'a list) \<times> 'a PriorityQueue" where
  "toSortedArray q =
     (let copy0 = \<lparr>heap = [], comparator = comparator q, seq = 0\<rparr>;
          copy1 = copy0\<lparr>heap := map (\<lambda>e. \<lparr>value_of = value_of e, id_of = id_of e\<rparr>) (heap q)\<rparr>;
          copy2 = copy1\<lparr>seq := seq q\<rparr>
      in case reheapify (comparator copy2) (heap copy2) (length (heap copy2) div 2) of
           (Some e, h') \<Rightarrow> (Inl e, q)
         | (None, h') \<Rightarrow> (fst (drain (copy2\<lparr>heap := h'\<rparr>) []), q))"

text \<open>
  The constructor: the field initialisers, the comparator, then
  \<^verbatim>\<open>for (const v of initial) this.enqueue(v)\<close>, which stops at the first throw. The
  comparator installed is the argument; a caller that passes none installs
  \<open>defaultComparator\<close> (below), at the value type \<open>jsvalue\<close>. An omitted \<open>initial\<close> is the
  empty list. \<open>from_iterable\<close> is the static \<open>from\<close>.
\<close>

fun enqueue_all :: "'a PriorityQueue \<Rightarrow> 'a list \<Rightarrow> error option \<times> 'a PriorityQueue" where
  "enqueue_all q [] = (None, q)"
| "enqueue_all q (v # vs) =
     (case enqueue q v of
        (Some e, q') \<Rightarrow> (Some e, q')
      | (None, q') \<Rightarrow> enqueue_all q' vs)"

definition constructor :: "'a Comparator \<Rightarrow> 'a list \<Rightarrow> error option \<times> 'a PriorityQueue" where
  "constructor cmp initial = enqueue_all \<lparr>heap = [], comparator = cmp, seq = 0\<rparr> initial"

definition from_iterable :: "'a list \<Rightarrow> 'a Comparator \<Rightarrow> error option \<times> 'a PriorityQueue" where
  "from_iterable iterable cmp = constructor cmp iterable"

subsection \<open>The default comparator\<close>

text \<open>
  The values the default comparator distinguishes: numbers, strings, and everything
  else (objects, booleans, \<open>null\<close>, ...; the index only tells such values apart).
  \<open>String.prototype.localeCompare\<close> is a built-in of the host, taken as a parameter.
\<close>

datatype jsvalue = JNumber int | JString string | JOther nat

fun defaultComparator :: "(string \<Rightarrow> string \<Rightarrow> int) \<Rightarrow> jsvalue Comparator" where
  "defaultComparator localeCompare (JNumber a) (JNumber b) = Inr (a - b)"
| "defaultComparator localeCompare (JString a) (JString b) = Inr (localeCompare a b)"
| "defaultComparator localeCompare a b =
     Inl (Error ''No comparator provided for element type; provide a Comparator<T>'')"

section \<open>Specification vocabulary\<close>

subsection \<open>The order on values and on entries\<close>

text \<open>
  The order the specification speaks of, read off a comparison that returned: \<open>a\<close> orders
  before or equal to \<open>b\<close> when the result is not positive, strictly before when it is
  negative. A comparison that threw establishes neither.
\<close>

definition le_values :: "'a Comparator \<Rightarrow> 'a \<Rightarrow> 'a \<Rightarrow> bool" where
  "le_values cmp a b = (case cmp a b of Inl e \<Rightarrow> False | Inr c \<Rightarrow> c \<le> 0)"

definition lt_values :: "'a Comparator \<Rightarrow> 'a \<Rightarrow> 'a \<Rightarrow> bool" where
  "lt_values cmp a b = (case cmp a b of Inl e \<Rightarrow> False | Inr c \<Rightarrow> c < 0)"

definition le_entries :: "'a Comparator \<Rightarrow> 'a Entry \<Rightarrow> 'a Entry \<Rightarrow> bool" where
  "le_entries cmp a b = (case compareEntries cmp a b of Inl e \<Rightarrow> False | Inr c \<Rightarrow> c \<le> 0)"

definition lt_entries :: "'a Comparator \<Rightarrow> 'a Entry \<Rightarrow> 'a Entry \<Rightarrow> bool" where
  "lt_entries cmp a b = (case compareEntries cmp a b of Inl e \<Rightarrow> False | Inr c \<Rightarrow> c < 0)"

text \<open>
  \<open>total_preorder_on S cmp\<close>: on the values of \<open>S\<close>, \<open>cmp\<close> is a comparator in the
  sense of the specification, "a function \<open>(T, T) \<rightarrow> {negative, zero, positive}\<close> defining a
  total preorder". It returns a number for every pair, \<open>cmp a b\<close> is negative exactly when
  \<open>cmp b a\<close> is positive, and "not positive" is transitive.
\<close>

definition total_preorder_on :: "'a set \<Rightarrow> 'a Comparator \<Rightarrow> bool" where
  "total_preorder_on S cmp \<longleftrightarrow>
     (\<forall>a\<in>S. \<forall>b\<in>S. \<exists>c. cmp a b = Inr c) \<and>
     (\<forall>a\<in>S. \<forall>b\<in>S. lt_values cmp a b \<longleftrightarrow> \<not> le_values cmp b a) \<and>
     (\<forall>a\<in>S. \<forall>b\<in>S. \<forall>d\<in>S. le_values cmp a b \<longrightarrow> le_values cmp b d \<longrightarrow> le_values cmp a d)"

definition total_preorder :: "'a Comparator \<Rightarrow> bool" where
  "total_preorder cmp = total_preorder_on UNIV cmp"

text \<open>The same three properties for the order on a set of entries (comparator, then id).\<close>

definition entry_order :: "'a Comparator \<Rightarrow> 'a Entry set \<Rightarrow> bool" where
  "entry_order cmp E \<longleftrightarrow>
     (\<forall>a\<in>E. \<forall>b\<in>E. \<exists>c. compareEntries cmp a b = Inr c) \<and>
     (\<forall>a\<in>E. \<forall>b\<in>E. lt_entries cmp a b \<longleftrightarrow> \<not> le_entries cmp b a) \<and>
     (\<forall>a\<in>E. \<forall>b\<in>E. \<forall>d\<in>E. le_entries cmp a b \<longrightarrow> le_entries cmp b d \<longrightarrow> le_entries cmp a d)"

definition strict_total_order_on :: "'b set \<Rightarrow> ('b \<Rightarrow> 'b \<Rightarrow> bool) \<Rightarrow> bool" where
  "strict_total_order_on E R \<longleftrightarrow>
     (\<forall>a\<in>E. \<not> R a a) \<and>
     (\<forall>a\<in>E. \<forall>b\<in>E. \<forall>d\<in>E. R a b \<longrightarrow> R b d \<longrightarrow> R a d) \<and>
     (\<forall>a\<in>E. \<forall>b\<in>E. a \<noteq> b \<longrightarrow> R a b \<or> R b a)"

subsection \<open>The heap property\<close>

text \<open>
  For every non-root index \<open>i\<close>, \<open>order(heap[parent(i)], heap[i]) \<le> 0\<close>, the comparison
  having returned.
\<close>

definition heap_ok :: "'a Comparator \<Rightarrow> 'a Entry list \<Rightarrow> bool" where
  "heap_ok cmp h \<longleftrightarrow> (\<forall>i\<in>{1..<length h}. le_entries cmp (h ! getParent i) (h ! i))"

definition heap_property :: "'a PriorityQueue \<Rightarrow> bool" where
  "heap_property q = heap_ok (comparator q) (heap q)"

text \<open>
  The loop invariants. \<open>up_inv cmp h i\<close>: the heap property holds at every index but \<open>i\<close>,
  and the parent of \<open>i\<close> orders before or equal to the children of \<open>i\<close>.
  \<open>heap_from cmp lo h\<close>: the heap property at the indices whose parent is at least \<open>lo\<close>.
  \<open>down_inv cmp lo h i\<close>: the same but for the children of \<open>i\<close>, and the parent of \<open>i\<close>
  orders before or equal to the children of \<open>i\<close>.
\<close>

definition up_inv :: "'a Comparator \<Rightarrow> 'a Entry list \<Rightarrow> nat \<Rightarrow> bool" where
  "up_inv cmp h i \<longleftrightarrow>
     (\<forall>j. 0 < j \<and> j < length h \<and> j \<noteq> i \<longrightarrow> le_entries cmp (h ! getParent j) (h ! j)) \<and>
     (\<forall>j. 0 < j \<and> j < length h \<and> getParent j = i \<and> 0 < i \<longrightarrow>
          le_entries cmp (h ! getParent i) (h ! j))"

definition heap_from :: "'a Comparator \<Rightarrow> nat \<Rightarrow> 'a Entry list \<Rightarrow> bool" where
  "heap_from cmp lo h \<longleftrightarrow>
     (\<forall>j. 0 < j \<and> j < length h \<and> lo \<le> getParent j \<longrightarrow>
          le_entries cmp (h ! getParent j) (h ! j))"

definition down_inv :: "'a Comparator \<Rightarrow> nat \<Rightarrow> 'a Entry list \<Rightarrow> nat \<Rightarrow> bool" where
  "down_inv cmp lo h i \<longleftrightarrow>
     (\<forall>j. 0 < j \<and> j < length h \<and> lo \<le> getParent j \<and> getParent j \<noteq> i \<longrightarrow>
          le_entries cmp (h ! getParent j) (h ! j)) \<and>
     (\<forall>j. 0 < j \<and> j < length h \<and> getParent j = i \<and> 0 < i \<and> lo \<le> getParent i \<longrightarrow>
          le_entries cmp (h ! getParent i) (h ! j))"

subsection \<open>Reachable states\<close>

text \<open>
  The entries that enqueueing \<open>vs\<close> creates when the counter stands at \<open>n\<close>.
\<close>

fun entries_from :: "int \<Rightarrow> 'a list \<Rightarrow> 'a Entry list" where
  "entries_from n [] = []"
| "entries_from n (v # vs) = \<lparr>value_of = v, id_of = n\<rparr> # entries_from (n + 1) vs"

text \<open>
  The states a caller can reach through the public operations, with values drawn from \<open>S\<close>
  and comparators that satisfy \<open>P\<close>. A constructor that throws yields no object; every
  other operation leaves the object in the state its second component records, whether it
  returned or threw. \<open>peek\<close>, \<open>size\<close>, \<open>isEmpty\<close> and \<open>toArray\<close> return no state.
\<close>

inductive reachable ::
  "'a set \<Rightarrow> ('a Comparator \<Rightarrow> bool) \<Rightarrow> 'a PriorityQueue \<Rightarrow> bool"
  for S :: "'a set" and P :: "'a Comparator \<Rightarrow> bool" where
  construct: "P cmp \<Longrightarrow> set initial \<subseteq> S \<Longrightarrow> constructor cmp initial = (None, q) \<Longrightarrow>
      reachable S P q"
| enqueued: "reachable S P q \<Longrightarrow> v \<in> S \<Longrightarrow> reachable S P (snd (enqueue q v))"
| dequeued: "reachable S P q \<Longrightarrow> reachable S P (snd (dequeue q))"
| cleared: "reachable S P q \<Longrightarrow> reachable S P (clear q)"
| comparator_set: "reachable S P q \<Longrightarrow> P cmp \<Longrightarrow> reachable S P (snd (setComparator q cmp))"
| sorted_array: "reachable S P q \<Longrightarrow> reachable S P (snd (toSortedArray q))"

text \<open>Pairwise distinct ids, each below the sequence counter.\<close>

definition ids_ok :: "'a PriorityQueue \<Rightarrow> bool" where
  "ids_ok q \<longleftrightarrow> distinct (map id_of (heap q)) \<and> (\<forall>e\<in>set (heap q). id_of e < seq q)"

text \<open>A comparator that returns a number for every pair of values.\<close>

definition never_fails :: "'a Comparator \<Rightarrow> bool" where
  "never_fails cmp \<longleftrightarrow> (\<forall>a b. \<exists>c. cmp a b = Inr c)"

text \<open>\<open>k\<close> calls of \<open>dequeue\<close> in a row, up to the first that throws.\<close>

fun dequeue_n :: "nat \<Rightarrow> 'a PriorityQueue \<Rightarrow> error option \<times> 'a PriorityQueue" where
  "dequeue_n 0 q = (None, q)"
| "dequeue_n (Suc k) q =
     (case dequeue q of
        (Inl e, q') \<Rightarrow> (Some e, q')
      | (Inr r, q') \<Rightarrow> dequeue_n k q')"

subsection \<open>Sample comparators\<close>

text \<open>
  \<^verbatim>\<open>(a, b) => a - b\<close> and \<^verbatim>\<open>(a, b) => b - a\<close> on numbers; the comparator of \<open>main()\<close>,
  \<^verbatim>\<open>one.priority - other.priority\<close>, on items (name, priority); the code-unit order of
  strings as a sample \<open>localeCompare\<close>; and the error \<open>defaultComparator\<close> throws.
\<close>

definition int_cmp :: "int Comparator" where
  "int_cmp a b = Inr (a - b)"

definition rev_cmp :: "int Comparator" where
  "rev_cmp a b = Inr (b - a)"

definition priority_cmp :: "(string \<times> int) Comparator" where
  "priority_cmp one other = Inr (snd one - snd other)"

fun c_locale_compare :: "string \<Rightarrow> string \<Rightarrow> int" where
  "c_locale_compare [] [] = 0"
| "c_locale_compare [] (y # ys) = - 1"
| "c_locale_compare (x # xs) [] = 1"
| "c_locale_compare (x # xs) (y # ys) =
     (if (of_char x :: nat) < of_char y then - 1
      else if (of_char y :: nat) < of_char x then 1
      else c_locale_compare xs ys)"

text \<open>A function that is no comparator: it orders every value strictly before every other.\<close>

definition always_before :: "int Comparator" where
  "always_before a b = Inr (- 1)"

definition no_comparator_error :: error where
  "no_comparator_error = Error ''No comparator provided for element type; provide a Comparator<T>''"

section \<open>Lemmas\<close>

subsection \<open>Frame lemmas\<close>

lemma enqueue_seq: "seq (snd (enqueue q v)) = seq q + 1"
  by (simp add: enqueue_def Let_def split: prod.splits)

lemma dequeue_seq: "seq (snd (dequeue q)) = seq q"
  by (simp add: dequeue_def Let_def split: prod.splits option.splits)

lemma setComparator_seq: "seq (snd (setComparator q cmp)) = seq q"
  by (simp add: setComparator_def Let_def split: prod.splits)

lemma toSortedArray_this: "snd (toSortedArray q) = q"
  by (simp add: toSortedArray_def Let_def split: prod.splits option.splits)

subsection \<open>Comparators as orders\<close>

lemma tp_defined:
  "total_preorder_on S cmp \<Longrightarrow> a \<in> S \<Longrightarrow> b \<in> S \<Longrightarrow> \<exists>c. cmp a b = Inr c"
  unfolding total_preorder_on_def by blast

lemma tp_sign:
  assumes "total_preorder_on S cmp" "a \<in> S" "b \<in> S" "cmp a b = Inr n" "cmp b a = Inr m"
  shows "n < 0 \<longleftrightarrow> 0 < m"
proof -
  from assms(1-3) have "lt_values cmp a b \<longleftrightarrow> \<not> le_values cmp b a"
    unfolding total_preorder_on_def by blast
  with assms(4,5) show ?thesis
    by (simp add: lt_values_def le_values_def not_le)
qed

lemma tp_zero:
  assumes "total_preorder_on S cmp" "a \<in> S" "b \<in> S" "cmp a b = Inr n" "cmp b a = Inr m"
  shows "n = 0 \<longleftrightarrow> m = 0"
  using tp_sign [OF assms] tp_sign [OF assms(1) assms(3) assms(2) assms(5) assms(4)]
  by auto

lemma tp_trans:
  assumes "total_preorder_on S cmp" "a \<in> S" "b \<in> S" "d \<in> S"
    "cmp a b = Inr n" "cmp b d = Inr m" "cmp a d = Inr k" "n \<le> 0" "m \<le> 0"
  shows "k \<le> 0"
proof -
  from assms(1-4) have "le_values cmp a b \<longrightarrow> le_values cmp b d \<longrightarrow> le_values cmp a d"
    unfolding total_preorder_on_def by blast
  with assms(5-9) show ?thesis
    by (simp add: le_values_def)
qed

lemma ce_defined:
  assumes tp: "total_preorder_on S cmp" and S: "value_of a \<in> S" "value_of b \<in> S"
  shows "\<exists>c. compareEntries cmp a b = Inr c"
  using tp_defined [OF tp S] by (auto simp: compareEntries_def)

lemma ce_sign:
  assumes tp: "total_preorder_on S cmp" and S: "value_of a \<in> S" "value_of b \<in> S"
  shows "lt_entries cmp a b \<longleftrightarrow> \<not> le_entries cmp b a"
proof -
  obtain n where n: "cmp (value_of a) (value_of b) = Inr n"
    using tp_defined [OF tp S] by blast
  obtain m where m: "cmp (value_of b) (value_of a) = Inr m"
    using tp_defined [OF tp S(2) S(1)] by blast
  have 1: "n < 0 \<longleftrightarrow> 0 < m" by (rule tp_sign [OF tp S n m])
  have 2: "n = 0 \<longleftrightarrow> m = 0" by (rule tp_zero [OF tp S n m])
  show ?thesis
  proof (cases "n = 0")
    case True
    with 2 n m show ?thesis
      by (simp add: lt_entries_def le_entries_def compareEntries_def not_le)
  next
    case False
    with 1 2 n m show ?thesis
      by (simp add: lt_entries_def le_entries_def compareEntries_def not_le)
  qed
qed

lemma ce_trans:
  assumes tp: "total_preorder_on S cmp"
    and S: "value_of a \<in> S" "value_of b \<in> S" "value_of d \<in> S"
    and le: "le_entries cmp a b" "le_entries cmp b d"
  shows "le_entries cmp a d"
proof -
  obtain ab where ab: "cmp (value_of a) (value_of b) = Inr ab"
    using tp_defined [OF tp S(1) S(2)] by blast
  obtain ba where ba: "cmp (value_of b) (value_of a) = Inr ba"
    using tp_defined [OF tp S(2) S(1)] by blast
  obtain bd where bd: "cmp (value_of b) (value_of d) = Inr bd"
    using tp_defined [OF tp S(2) S(3)] by blast
  obtain db where db: "cmp (value_of d) (value_of b) = Inr db"
    using tp_defined [OF tp S(3) S(2)] by blast
  obtain ad where ad: "cmp (value_of a) (value_of d) = Inr ad"
    using tp_defined [OF tp S(1) S(3)] by blast
  obtain da where da: "cmp (value_of d) (value_of a) = Inr da"
    using tp_defined [OF tp S(3) S(1)] by blast
  from le(1) ab have ab0: "ab \<le> 0"
    by (cases "ab = 0") (simp_all add: le_entries_def compareEntries_def)
  from le(1) ab have abid: "id_of a \<le> id_of b" if "ab = 0"
    using that by (simp add: le_entries_def compareEntries_def)
  from le(2) bd have bd0: "bd \<le> 0"
    by (cases "bd = 0") (simp_all add: le_entries_def compareEntries_def)
  from le(2) bd have bdid: "id_of b \<le> id_of d" if "bd = 0"
    using that by (simp add: le_entries_def compareEntries_def)
  have ad0: "ad \<le> 0"
    by (rule tp_trans [OF tp S(1) S(2) S(3) ab bd ad ab0 bd0])
  show ?thesis
  proof (cases "ad = 0")
    case False
    with ad0 ad show ?thesis
      by (simp add: le_entries_def compareEntries_def)
  next
    case True
    with tp_zero [OF tp S(1) S(3) ad da] have da0: "da = 0" by simp
    have "db \<le> 0"
      using tp_trans [OF tp S(3) S(1) S(2) da ab db] da0 ab0 by simp
    with tp_sign [OF tp S(2) S(3) bd db] bd0 have b0: "bd = 0" by linarith
    have "ba \<le> 0"
      using tp_trans [OF tp S(2) S(3) S(1) bd da ba] da0 bd0 by simp
    with tp_sign [OF tp S(1) S(2) ab ba] ab0 have a0: "ab = 0" by linarith
    from abid [OF a0] bdid [OF b0] True ad show ?thesis
      by (simp add: le_entries_def compareEntries_def)
  qed
qed

lemma entry_order_of_total_preorder:
  assumes tp: "total_preorder_on S cmp" and sub: "value_of ` E \<subseteq> S"
  shows "entry_order cmp E"
  unfolding entry_order_def
proof (intro conjI ballI impI)
  fix a b
  assume "a \<in> E" "b \<in> E"
  with sub have S: "value_of a \<in> S" "value_of b \<in> S" by auto
  show "\<exists>c. compareEntries cmp a b = Inr c"
    by (rule ce_defined [OF tp S])
  show "lt_entries cmp a b \<longleftrightarrow> \<not> le_entries cmp b a"
    by (rule ce_sign [OF tp S])
next
  fix a b d
  assume "a \<in> E" "b \<in> E" "d \<in> E"
  with sub have S: "value_of a \<in> S" "value_of b \<in> S" "value_of d \<in> S" by auto
  assume "le_entries cmp a b" "le_entries cmp b d"
  then show "le_entries cmp a d"
    by (rule ce_trans [OF tp S])
qed

lemma eo_defined:
  "entry_order cmp E \<Longrightarrow> a \<in> E \<Longrightarrow> b \<in> E \<Longrightarrow> \<exists>c. compareEntries cmp a b = Inr c"
  unfolding entry_order_def by blast

lemma eo_sign:
  "entry_order cmp E \<Longrightarrow> a \<in> E \<Longrightarrow> b \<in> E \<Longrightarrow> lt_entries cmp a b \<longleftrightarrow> \<not> le_entries cmp b a"
  unfolding entry_order_def by blast

lemma eo_trans:
  "entry_order cmp E \<Longrightarrow> a \<in> E \<Longrightarrow> b \<in> E \<Longrightarrow> d \<in> E \<Longrightarrow>
   le_entries cmp a b \<Longrightarrow> le_entries cmp b d \<Longrightarrow> le_entries cmp a d"
  unfolding entry_order_def by blast

lemma lt_imp_le: "lt_entries cmp a b \<Longrightarrow> le_entries cmp a b"
  by (auto simp: lt_entries_def le_entries_def split: sum.splits)

lemma eo_total:
  assumes "entry_order cmp E" "a \<in> E" "b \<in> E" "\<not> lt_entries cmp a b"
  shows "le_entries cmp b a"
  using eo_sign [OF assms(1-3)] assms(4) by simp

lemma eo_refl:
  assumes "entry_order cmp E" "a \<in> E"
  shows "le_entries cmp a a"
  using eo_sign [OF assms(1) assms(2) assms(2)] lt_imp_le [of cmp a a] by blast

lemma eo_lt_le_trans:
  assumes eo: "entry_order cmp E" and E: "a \<in> E" "b \<in> E" "d \<in> E"
    and "lt_entries cmp a b" "le_entries cmp b d"
  shows "lt_entries cmp a d"
proof (rule ccontr)
  assume "\<not> lt_entries cmp a d"
  then have "le_entries cmp d a"
    by (rule eo_total [OF eo E(1) E(3)])
  with assms(6) have "le_entries cmp b a"
    by (rule eo_trans [OF eo E(2) E(3) E(1)])
  with eo_sign [OF eo E(1) E(2)] assms(5) show False
    by simp
qed

lemma eo_subset: "entry_order cmp E \<Longrightarrow> F \<subseteq> E \<Longrightarrow> entry_order cmp F"
  unfolding entry_order_def by blast

lemma total_preorder_on_subset:
  "total_preorder_on S cmp \<Longrightarrow> T \<subseteq> S \<Longrightarrow> total_preorder_on T cmp"
  unfolding total_preorder_on_def by blast

lemma total_preorder_int_cmp: "total_preorder int_cmp"
  by (auto simp: total_preorder_def total_preorder_on_def int_cmp_def lt_values_def le_values_def)

lemma total_preorder_rev_cmp: "total_preorder rev_cmp"
  by (auto simp: total_preorder_def total_preorder_on_def rev_cmp_def lt_values_def le_values_def)

lemma total_preorder_priority_cmp: "total_preorder priority_cmp"
  by (auto simp: total_preorder_def total_preorder_on_def priority_cmp_def
        lt_values_def le_values_def)

lemma never_fails_int_cmp: "never_fails int_cmp"
  by (simp add: never_fails_def int_cmp_def)

lemma never_fails_no_error: "never_fails cmp \<Longrightarrow> cmp a b = Inl e \<Longrightarrow> False"
  unfolding never_fails_def by (metis Inl_Inr_False)

subsection \<open>Indices and swaps\<close>

lemma parent_lt: "0 < j \<Longrightarrow> getParent j < j"
  by (auto simp: getParent_def)

lemma parent_children: "0 < j \<Longrightarrow> getParent j = i \<Longrightarrow> j = getLeft i \<or> j = getRight i"
  by (auto simp: getParent_def getLeft_def getRight_def)

lemma parent_left: "getParent (getLeft i) = i"
  by (simp add: getParent_def getLeft_def)

lemma parent_right: "getParent (getRight i) = i"
  by (simp add: getParent_def getRight_def)

lemma swap_nth:
  "a < length h \<Longrightarrow> b < length h \<Longrightarrow>
   swap h a b ! k = (if k = b then h ! a else if k = a then h ! b else h ! k)"
  by (simp add: swap_def Let_def nth_list_update)

lemma mset_swap_heap:
  "a < length h \<Longrightarrow> b < length h \<Longrightarrow> mset (swap h a b) = mset h"
  by (simp add: swap_def Let_def mset_swap)

lemma set_swap_heap:
  "a < length h \<Longrightarrow> b < length h \<Longrightarrow> set (swap h a b) = set h"
  using mset_swap_heap [of a h b] by (metis set_mset_mset)

subsection \<open>siftUp restores the heap property\<close>

lemma up_invD1:
  "up_inv cmp h i \<Longrightarrow> 0 < j \<Longrightarrow> j < length h \<Longrightarrow> j \<noteq> i \<Longrightarrow>
   le_entries cmp (h ! getParent j) (h ! j)"
  unfolding up_inv_def by blast

lemma up_invD2:
  "up_inv cmp h i \<Longrightarrow> 0 < j \<Longrightarrow> j < length h \<Longrightarrow> getParent j = i \<Longrightarrow> 0 < i \<Longrightarrow>
   le_entries cmp (h ! getParent i) (h ! j)"
  unfolding up_inv_def by blast

lemma up_stop:
  assumes "up_inv cmp h i" and "i = 0 \<or> le_entries cmp (h ! getParent i) (h ! i)"
  shows "heap_ok cmp h"
  unfolding heap_ok_def
proof
  fix j
  assume "j \<in> {1..<length h}"
  then have j: "0 < j" "j < length h" by auto
  show "le_entries cmp (h ! getParent j) (h ! j)"
  proof (cases "j = i")
    case True
    with j assms(2) show ?thesis by auto
  next
    case False
    with assms(1) j show ?thesis by (rule up_invD1)
  qed
qed

lemma up_step:
  assumes eo: "entry_order cmp (set h)"
    and i: "0 < i" "i < length h"
    and inv: "up_inv cmp h i"
    and lt: "lt_entries cmp (h ! i) (h ! getParent i)"
  shows "up_inv cmp (swap h i (getParent i)) (getParent i)"
proof -
  let ?p = "getParent i"
  let ?h = "swap h i ?p"
  have p: "?p < i" using i(1) by (rule parent_lt)
  with i have pl: "?p < length h" by simp
  have nth: "?h ! k = (if k = ?p then h ! i else if k = i then h ! ?p else h ! k)" for k
    using i(2) pl by (rule swap_nth)
  have mem: "h ! k \<in> set h" if "k < length h" for k
    using that by simp
  have ip: "le_entries cmp (h ! i) (h ! ?p)"
    using lt by (rule lt_imp_le)
  have A: "le_entries cmp (?h ! getParent j) (?h ! j)"
    if j: "0 < j" "j < length h" "j \<noteq> ?p" for j
  proof -
    have pj: "getParent j < j" using j(1) by (rule parent_lt)
    with j have pjl: "getParent j < length h" by simp
    show ?thesis
    proof (cases "j = i")
      case True
      with ip p show ?thesis by (simp add: nth)
    next
      case ji: False
      show ?thesis
      proof (cases "getParent j = i")
        case True
        have "le_entries cmp (h ! ?p) (h ! j)"
          using inv j(1) j(2) True i(1) by (rule up_invD2)
        with True ji j(3) p show ?thesis by (simp add: nth)
      next
        case pji: False
        show ?thesis
        proof (cases "getParent j = ?p")
          case True
          have "le_entries cmp (h ! ?p) (h ! j)"
            using up_invD1 [OF inv j(1) j(2) ji] True by simp
          with ip have "le_entries cmp (h ! i) (h ! j)"
            by (rule eo_trans [OF eo mem [OF i(2)] mem [OF pl] mem [OF j(2)]])
          with True ji j(3) show ?thesis by (simp add: nth)
        next
          case False
          have "le_entries cmp (h ! getParent j) (h ! j)"
            using inv j(1) j(2) ji by (rule up_invD1)
          with False pji ji j(3) show ?thesis by (simp add: nth)
        qed
      qed
    qed
  qed
  have B: "le_entries cmp (?h ! getParent ?p) (?h ! j)"
    if j: "0 < j" "j < length h" "getParent j = ?p" "0 < ?p" for j
  proof -
    have pp: "getParent ?p < ?p" using j(4) by (rule parent_lt)
    with pl have ppl: "getParent ?p < length h" by simp
    have 1: "le_entries cmp (h ! getParent ?p) (h ! ?p)"
      using inv j(4) pl by (rule up_invD1) (use p in simp)
    have jp: "j \<noteq> ?p" using parent_lt [OF j(1)] j(3) by simp
    show ?thesis
    proof (cases "j = i")
      case True
      with 1 pp p show ?thesis by (simp add: nth)
    next
      case False
      have "le_entries cmp (h ! ?p) (h ! j)"
        using up_invD1 [OF inv j(1) j(2) False] j(3) by simp
      with 1 have "le_entries cmp (h ! getParent ?p) (h ! j)"
        by (rule eo_trans [OF eo mem [OF ppl] mem [OF pl] mem [OF j(2)]])
      with False jp pp p show ?thesis by (simp add: nth)
    qed
  qed
  show ?thesis
    unfolding up_inv_def using A B by (simp add: length_swap)
qed

lemma siftUp_heap:
  "entry_order cmp (set h) \<Longrightarrow> i < length h \<Longrightarrow> up_inv cmp h i \<Longrightarrow>
   \<exists>h'. siftUp cmp h i = (None, h') \<and> heap_ok cmp h' \<and> mset h' = mset h"
proof (induction cmp h i rule: siftUp.induct)
  case (1 cmp h i)
  show ?case
  proof (cases "0 < i")
    case False
    then have "siftUp cmp h i = (None, h)"
      by (subst siftUp.simps) (simp add: Let_def)
    moreover have "heap_ok cmp h"
      using "1.prems"(3) False by (intro up_stop [of cmp h i]) simp_all
    ultimately show ?thesis by simp
  next
    case True
    let ?p = "getParent i"
    have p: "?p < i" using True by (rule parent_lt)
    with "1.prems"(2) have pl: "?p < length h" by simp
    have mem: "h ! i \<in> set h" "h ! ?p \<in> set h"
      using "1.prems"(2) pl by simp_all
    obtain c where c: "compareEntries cmp (h ! i) (h ! ?p) = Inr c"
      using eo_defined [OF "1.prems"(1) mem] by blast
    show ?thesis
    proof (cases "c \<ge> 0")
      case ge: True
      with c True "1.prems"(2) have "siftUp cmp h i = (None, h)"
        by (subst siftUp.simps) (simp add: Let_def)
      moreover from c ge have "\<not> lt_entries cmp (h ! i) (h ! ?p)"
        by (simp add: lt_entries_def)
      then have "le_entries cmp (h ! ?p) (h ! i)"
        by (rule eo_total [OF "1.prems"(1) mem])
      then have "heap_ok cmp h"
        using "1.prems"(3) by (intro up_stop [of cmp h i]) simp_all
      ultimately show ?thesis by simp
    next
      case lt: False
      with c True "1.prems"(2)
      have eq: "siftUp cmp h i = siftUp cmp (swap h i ?p) ?p"
        by (subst siftUp.simps) (simp add: Let_def)
      from c lt have ltE: "lt_entries cmp (h ! i) (h ! ?p)"
        by (simp add: lt_entries_def)
      have inv': "up_inv cmp (swap h i ?p) ?p"
        using "1.prems"(1) True "1.prems"(2) "1.prems"(3) ltE by (rule up_step)
      have set': "set (swap h i ?p) = set h"
        using "1.prems"(2) pl by (rule set_swap_heap)
      have "\<exists>h'. siftUp cmp (swap h i ?p) ?p = (None, h') \<and> heap_ok cmp h' \<and>
                 mset h' = mset (swap h i ?p)"
      proof (rule "1.IH" [OF True refl _ c])
        show "\<not> length h \<le> i" using "1.prems"(2) by simp
        show "\<not> 0 \<le> c" using lt by simp
        show "entry_order cmp (set (swap h i ?p))"
          using "1.prems"(1) set' by simp
        show "?p < length (swap h i ?p)" using pl by (simp add: length_swap)
        show "up_inv cmp (swap h i ?p) ?p" by (rule inv')
      qed
      with eq mset_swap_heap [OF "1.prems"(2) pl] show ?thesis by simp
    qed
  qed
qed

subsection \<open>siftDown restores the heap property\<close>

lemma heap_from_0: "heap_from cmp 0 h \<longleftrightarrow> heap_ok cmp h"
  by (auto simp: heap_from_def heap_ok_def)

lemma heap_fromD:
  "heap_from cmp lo h \<Longrightarrow> 0 < j \<Longrightarrow> j < length h \<Longrightarrow> lo \<le> getParent j \<Longrightarrow>
   le_entries cmp (h ! getParent j) (h ! j)"
  unfolding heap_from_def by blast

lemma down_invD1:
  "down_inv cmp lo h i \<Longrightarrow> 0 < j \<Longrightarrow> j < length h \<Longrightarrow> lo \<le> getParent j \<Longrightarrow>
   getParent j \<noteq> i \<Longrightarrow> le_entries cmp (h ! getParent j) (h ! j)"
  unfolding down_inv_def by blast

lemma down_invD2:
  "down_inv cmp lo h i \<Longrightarrow> 0 < j \<Longrightarrow> j < length h \<Longrightarrow> getParent j = i \<Longrightarrow> 0 < i \<Longrightarrow>
   lo \<le> getParent i \<Longrightarrow> le_entries cmp (h ! getParent i) (h ! j)"
  unfolding down_inv_def by blast

text \<open>What the two guarded comparisons of one round of \<open>siftDown\<close> choose.\<close>

lemma smallest_of_spec:
  assumes eo: "entry_order cmp (set h)" and i: "i < length h"
  shows "\<exists>s. smallest_of cmp h i = Inr s \<and> s < length h \<and>
             (s = i \<or> s = getLeft i \<or> s = getRight i) \<and>
             (s \<noteq> i \<longrightarrow> lt_entries cmp (h ! s) (h ! i)) \<and>
             (getLeft i < length h \<longrightarrow> le_entries cmp (h ! s) (h ! getLeft i)) \<and>
             (getRight i < length h \<longrightarrow> le_entries cmp (h ! s) (h ! getRight i))"
proof -
  let ?l = "getLeft i" and ?r = "getRight i"
  have mem: "h ! k \<in> set h" if "k < length h" for k
    using that by simp
  have lr: "?r = Suc ?l" by (simp add: getLeft_def getRight_def)
  text \<open>The first comparison.\<close>
  have "\<exists>s1. (if ?l < length h then
                (case compareEntries cmp (h ! ?l) (h ! i) of
                   Inl e \<Rightarrow> Inl e
                 | Inr c \<Rightarrow> Inr (if c < 0 then ?l else i))
              else Inr i) = Inr s1 \<and> s1 < length h \<and> (s1 = i \<or> s1 = ?l) \<and>
            (s1 \<noteq> i \<longrightarrow> lt_entries cmp (h ! s1) (h ! i)) \<and>
            le_entries cmp (h ! s1) (h ! i) \<and>
            (?l < length h \<longrightarrow> le_entries cmp (h ! s1) (h ! ?l))"
  proof (cases "?l < length h")
    case False
    with i eo_refl [OF eo mem [OF i]] show ?thesis by simp
  next
    case True
    obtain c where c: "compareEntries cmp (h ! ?l) (h ! i) = Inr c"
      using eo_defined [OF eo mem [OF True] mem [OF i]] by blast
    show ?thesis
    proof (cases "c < 0")
      case lt: True
      with c have "lt_entries cmp (h ! ?l) (h ! i)"
        by (simp add: lt_entries_def)
      with True c lt eo_refl [OF eo mem [OF True]] show ?thesis
        by (simp add: lt_imp_le)
    next
      case ge: False
      with c have "\<not> lt_entries cmp (h ! ?l) (h ! i)"
        by (simp add: lt_entries_def)
      then have "le_entries cmp (h ! i) (h ! ?l)"
        by (rule eo_total [OF eo mem [OF True] mem [OF i]])
      with True c ge i eo_refl [OF eo mem [OF i]] show ?thesis
        by simp
    qed
  qed
  then obtain s1 where s1: "(if ?l < length h then
                (case compareEntries cmp (h ! ?l) (h ! i) of
                   Inl e \<Rightarrow> Inl e
                 | Inr c \<Rightarrow> Inr (if c < 0 then ?l else i))
              else Inr i) = Inr s1"
    and s1l: "s1 < length h" and s1c: "s1 = i \<or> s1 = ?l"
    and s1lt: "s1 \<noteq> i \<Longrightarrow> lt_entries cmp (h ! s1) (h ! i)"
    and s1i: "le_entries cmp (h ! s1) (h ! i)"
    and s1left: "?l < length h \<Longrightarrow> le_entries cmp (h ! s1) (h ! ?l)"
    by blast
  have unfold: "smallest_of cmp h i =
      (if ?r < length h then
         (case compareEntries cmp (h ! ?r) (h ! s1) of
            Inl e \<Rightarrow> Inl e
          | Inr c \<Rightarrow> Inr (if c < 0 then ?r else s1))
       else Inr s1)"
    unfolding smallest_of_def Let_def s1 by simp
  show ?thesis
  proof (cases "?r < length h")
    case False
    with unfold s1l s1c s1lt s1left show ?thesis by auto
  next
    case True
    then have l: "?l < length h" using lr by simp
    obtain c where c: "compareEntries cmp (h ! ?r) (h ! s1) = Inr c"
      using eo_defined [OF eo mem [OF True] mem [OF s1l]] by blast
    show ?thesis
    proof (cases "c < 0")
      case ge: False
      with c have "\<not> lt_entries cmp (h ! ?r) (h ! s1)"
        by (simp add: lt_entries_def)
      then have "le_entries cmp (h ! s1) (h ! ?r)"
        by (rule eo_total [OF eo mem [OF True] mem [OF s1l]])
      with unfold True c ge s1l s1c s1lt s1left show ?thesis by auto
    next
      case lt: True
      with c have rs: "lt_entries cmp (h ! ?r) (h ! s1)"
        by (simp add: lt_entries_def)
      have ri: "lt_entries cmp (h ! ?r) (h ! i)"
        using rs s1i by (rule eo_lt_le_trans [OF eo mem [OF True] mem [OF s1l] mem [OF i]])
      have rl: "le_entries cmp (h ! ?r) (h ! ?l)"
        using lt_imp_le [OF rs] s1left [OF l]
        by (rule eo_trans [OF eo mem [OF True] mem [OF s1l] mem [OF l]])
      have "smallest_of cmp h i = Inr ?r"
        using unfold True c lt by simp
      moreover have "?r \<noteq> i" by (simp add: getRight_def)
      ultimately show ?thesis
        using True ri rl eo_refl [OF eo mem [OF True]] by simp
    qed
  qed
qed

lemma down_stop:
  assumes inv: "down_inv cmp lo h i"
    and l: "getLeft i < length h \<Longrightarrow> le_entries cmp (h ! i) (h ! getLeft i)"
    and r: "getRight i < length h \<Longrightarrow> le_entries cmp (h ! i) (h ! getRight i)"
  shows "heap_from cmp lo h"
  unfolding heap_from_def
proof (intro allI impI, elim conjE)
  fix j
  assume j: "0 < j" "j < length h" "lo \<le> getParent j"
  show "le_entries cmp (h ! getParent j) (h ! j)"
  proof (cases "getParent j = i")
    case False
    with inv j show ?thesis by (rule down_invD1)
  next
    case True
    with parent_children [OF j(1) True] l r j(2) show ?thesis by auto
  qed
qed

lemma down_step:
  assumes eo: "entry_order cmp (set h)"
    and i: "i < length h" "lo \<le> i"
    and inv: "down_inv cmp lo h i"
    and s: "s < length h" "s = getLeft i \<or> s = getRight i"
    and lt: "lt_entries cmp (h ! s) (h ! i)"
    and l: "getLeft i < length h \<Longrightarrow> le_entries cmp (h ! s) (h ! getLeft i)"
    and r: "getRight i < length h \<Longrightarrow> le_entries cmp (h ! s) (h ! getRight i)"
  shows "down_inv cmp lo (swap h i s) s"
proof -
  let ?h = "swap h i s"
  have ps: "getParent s = i" using s(2) parent_left parent_right by auto
  have i_lt_s: "i < s" using s(2) by (auto simp: getLeft_def getRight_def)
  have nth: "?h ! k = (if k = s then h ! i else if k = i then h ! s else h ! k)" for k
    using i(1) s(1) by (rule swap_nth)
  have si: "le_entries cmp (h ! s) (h ! i)"
    using lt by (rule lt_imp_le)
  have A: "le_entries cmp (?h ! getParent j) (?h ! j)"
    if j: "0 < j" "j < length h" "lo \<le> getParent j" "getParent j \<noteq> s" for j
  proof -
    have pj: "getParent j < j" using j(1) by (rule parent_lt)
    show ?thesis
    proof (cases "j = s")
      case True
      with si ps i_lt_s show ?thesis by (simp add: nth)
    next
      case js: False
      show ?thesis
      proof (cases "getParent j = i")
        case True
        from parent_children [OF j(1) True] l r j(2)
        have "le_entries cmp (h ! s) (h ! j)" by auto
        moreover have "j \<noteq> i" using pj True by simp
        ultimately show ?thesis using True js i_lt_s by (simp add: nth)
      next
        case pji: False
        show ?thesis
        proof (cases "j = i")
          case True
          have "0 < s" using i_lt_s by simp
          then have "le_entries cmp (h ! getParent i) (h ! s)"
            using inv s(1) ps j(1) j(3) True by (intro down_invD2 [of cmp lo h i s]) simp_all
          moreover have "getParent i \<noteq> s" "getParent i \<noteq> i"
            using pj True i_lt_s by simp_all
          ultimately show ?thesis using True i_lt_s by (simp add: nth)
        next
          case False
          have "le_entries cmp (h ! getParent j) (h ! j)"
            using inv j(1) j(2) j(3) pji by (rule down_invD1)
          with False js pji j(4) show ?thesis by (simp add: nth)
        qed
      qed
    qed
  qed
  have B: "le_entries cmp (?h ! getParent s) (?h ! j)"
    if j: "0 < j" "j < length h" "getParent j = s" for j
  proof -
    have pj: "getParent j < j" using j(1) by (rule parent_lt)
    have "le_entries cmp (h ! getParent j) (h ! j)"
      using inv j(1) j(2) by (rule down_invD1) (use j(3) i(2) i_lt_s in simp_all)
    moreover have "j \<noteq> s" "j \<noteq> i" using pj j(3) i_lt_s by simp_all
    ultimately show ?thesis using ps j(3) i_lt_s by (simp add: nth)
  qed
  show ?thesis
    unfolding down_inv_def using A B by (simp add: length_swap)
qed

lemma siftDown_heap:
  "entry_order cmp (set h) \<Longrightarrow> i < length h \<Longrightarrow> lo \<le> i \<Longrightarrow> down_inv cmp lo h i \<Longrightarrow>
   \<exists>h'. siftDown cmp h i = (None, h') \<and> heap_from cmp lo h' \<and> mset h' = mset h"
proof (induction cmp h i rule: siftDown.induct)
  case (1 cmp h i)
  note eo = "1.prems"(1) and i = "1.prems"(2) and lo = "1.prems"(3) and inv = "1.prems"(4)
  obtain s where s: "smallest_of cmp h i = Inr s" and sl: "s < length h"
    and sc: "s = i \<or> s = getLeft i \<or> s = getRight i"
    and slt: "s \<noteq> i \<Longrightarrow> lt_entries cmp (h ! s) (h ! i)"
    and sleft: "getLeft i < length h \<Longrightarrow> le_entries cmp (h ! s) (h ! getLeft i)"
    and sright: "getRight i < length h \<Longrightarrow> le_entries cmp (h ! s) (h ! getRight i)"
    using smallest_of_spec [OF eo i] by blast
  show ?case
  proof (cases "s = i")
    case True
    with s have "siftDown cmp h i = (None, h)"
      by (subst siftDown.simps) simp
    moreover have "heap_from cmp lo h"
      using inv sleft sright unfolding True by (rule down_stop)
    ultimately show ?thesis by simp
  next
    case False
    with s have eq: "siftDown cmp h i = siftDown cmp (swap h i s) s"
      by (subst siftDown.simps) simp
    from sc False have sc': "s = getLeft i \<or> s = getRight i" by simp
    then have i_lt_s: "i < s" by (auto simp: getLeft_def getRight_def)
    have inv': "down_inv cmp lo (swap h i s) s"
      using eo i lo inv sl sc' slt [OF False] sleft sright by (rule down_step)
    have set': "set (swap h i s) = set h"
      using i sl by (rule set_swap_heap)
    have "\<exists>h'. siftDown cmp (swap h i s) s = (None, h') \<and> heap_from cmp lo h' \<and>
               mset h' = mset (swap h i s)"
    proof (rule "1.IH" [OF s False])
      show "entry_order cmp (set (swap h i s))" using eo set' by simp
      show "s < length (swap h i s)" using sl by (simp add: length_swap)
      show "lo \<le> s" using lo i_lt_s by simp
      show "down_inv cmp lo (swap h i s) s" by (rule inv')
    qed
    with eq mset_swap_heap [OF i sl] show ?thesis by simp
  qed
qed

lemma heap_from_half: "length h div 2 \<le> lo \<Longrightarrow> heap_from cmp lo h"
  by (auto simp: heap_from_def getParent_def)

lemma reheapify_heap:
  "entry_order cmp (set h) \<Longrightarrow> k \<le> length h div 2 \<Longrightarrow> heap_from cmp k h \<Longrightarrow>
   \<exists>h'. reheapify cmp h k = (None, h') \<and> heap_ok cmp h' \<and> mset h' = mset h"
proof (induction k arbitrary: h)
  case 0
  then show ?case by (simp add: heap_from_0)
next
  case (Suc i)
  have i: "i < length h" using Suc.prems(2) by simp
  have inv: "down_inv cmp i h i"
    unfolding down_inv_def
  proof (intro conjI allI impI; elim conjE)
    fix j
    assume "0 < j" "j < length h" "i \<le> getParent j" "getParent j \<noteq> i"
    then show "le_entries cmp (h ! getParent j) (h ! j)"
      by (intro heap_fromD [OF Suc.prems(3)]) simp_all
  next
    fix j
    assume "0 < i" "i \<le> getParent i"
    with parent_lt [of i] show "le_entries cmp (h ! getParent i) (h ! j)" by simp
  qed
  obtain h1 where h1: "siftDown cmp h i = (None, h1)" "heap_from cmp i h1" "mset h1 = mset h"
    using siftDown_heap [OF Suc.prems(1) i order_refl inv] by blast
  have "set h1 = set h" using h1(3) by (metis set_mset_mset)
  moreover have "length h1 = length h" using h1(3) by (metis size_mset)
  ultimately have "\<exists>h'. reheapify cmp h1 i = (None, h') \<and> heap_ok cmp h' \<and> mset h' = mset h1"
    using Suc.prems h1(2) by (intro Suc.IH) simp_all
  with h1 show ?case by simp
qed

lemma siftDown_noop:
  assumes eo: "entry_order cmp (set h)" and hp: "heap_ok cmp h" and i: "i < length h"
  shows "siftDown cmp h i = (None, h)"
proof -
  obtain s where s: "smallest_of cmp h i = Inr s" and sl: "s < length h"
    and sc: "s = i \<or> s = getLeft i \<or> s = getRight i"
    and slt: "s \<noteq> i \<Longrightarrow> lt_entries cmp (h ! s) (h ! i)"
    using smallest_of_spec [OF eo i] by blast
  have "s = i"
  proof (rule ccontr)
    assume ne: "s \<noteq> i"
    with sc have ps: "getParent s = i" and s0: "0 < s"
      using parent_left parent_right by (auto simp: getLeft_def getRight_def)
    from hp s0 sl ps have "le_entries cmp (h ! i) (h ! s)"
      by (auto simp: heap_ok_def)
    moreover have "h ! s \<in> set h" "h ! i \<in> set h" using sl i by simp_all
    ultimately show False
      using eo_sign [OF eo, of "h ! s" "h ! i"] slt [OF ne] by simp
  qed
  with s show ?thesis by (subst siftDown.simps) simp
qed

lemma reheapify_noop:
  assumes eo: "entry_order cmp (set h)" and hp: "heap_ok cmp h"
  shows "k \<le> length h div 2 \<Longrightarrow> reheapify cmp h k = (None, h)"
proof (induction k)
  case 0
  show ?case by simp
next
  case (Suc i)
  then have "i < length h" by simp
  with eo hp have "siftDown cmp h i = (None, h)" by (rule siftDown_noop)
  with Suc show ?case by simp
qed

subsection \<open>What the loops do under any comparator\<close>

lemma siftUp_mset: "mset (snd (siftUp cmp h i)) = mset h"
proof (induction cmp h i rule: siftUp.induct)
  case (1 cmp h i)
  show ?case
  proof (cases "0 < i \<and> i < length h")
    case False
    then show ?thesis by (subst siftUp.simps) (auto simp: Let_def)
  next
    case True
    then have p: "getParent i < length h"
      using parent_lt [of i] by simp
    show ?thesis
    proof (cases "compareEntries cmp (h ! i) (h ! getParent i)")
      case (Inl e)
      with True show ?thesis by (subst siftUp.simps) (simp add: Let_def)
    next
      case (Inr c)
      show ?thesis
      proof (cases "c \<ge> 0")
        case ge: True
        with Inr True show ?thesis by (subst siftUp.simps) (simp add: Let_def)
      next
        case False
        with Inr True have "siftUp cmp h i = siftUp cmp (swap h i (getParent i)) (getParent i)"
          by (subst siftUp.simps) (simp add: Let_def)
        moreover have "mset (snd (siftUp cmp (swap h i (getParent i)) (getParent i)))
            = mset (swap h i (getParent i))"
          using True Inr False by (intro "1.IH" [OF _ refl _ Inr]) simp_all
        ultimately show ?thesis
          using True p by (simp add: mset_swap_heap)
      qed
    qed
  qed
qed

lemma siftUp_error:
  "i < length h \<Longrightarrow> fst (siftUp cmp h i) = Some e \<Longrightarrow> \<exists>a b. cmp a b = Inl e"
proof (induction cmp h i rule: siftUp.induct)
  case (1 cmp h i)
  show ?case
  proof (cases "0 < i")
    case False
    with "1.prems"(2) show ?thesis by (subst (asm) siftUp.simps) simp
  next
    case True
    then have p: "getParent i < length h"
      using parent_lt [of i] "1.prems"(1) by simp
    show ?thesis
    proof (cases "compareEntries cmp (h ! i) (h ! getParent i)")
      case (Inl e')
      with True "1.prems" have "e' = e"
        by (subst (asm) siftUp.simps) (simp add: Let_def)
      with Inl show ?thesis
        by (auto simp: compareEntries_def split: sum.splits)
    next
      case (Inr c)
      show ?thesis
      proof (cases "c \<ge> 0")
        case ge: True
        with Inr True "1.prems" show ?thesis
          by (subst (asm) siftUp.simps) (simp add: Let_def)
      next
        case False
        with Inr True "1.prems"(1)
        have "siftUp cmp h i = siftUp cmp (swap h i (getParent i)) (getParent i)"
          by (subst siftUp.simps) (simp add: Let_def)
        with "1.prems"(2)
        have "fst (siftUp cmp (swap h i (getParent i)) (getParent i)) = Some e" by simp
        then show ?thesis
          using True "1.prems"(1) False p
          by (intro "1.IH" [OF _ refl _ Inr]) (simp_all add: length_swap)
      qed
    qed
  qed
qed

lemma siftUp_error_at:
  "i < length h \<Longrightarrow> fst (siftUp cmp h i) = Some e \<Longrightarrow>
   \<exists>j. j < length h \<and> j \<noteq> i \<and> cmp (value_of (h ! i)) (value_of (h ! j)) = Inl e"
proof (induction cmp h i rule: siftUp.induct)
  case (1 cmp h i)
  show ?case
  proof (cases "0 < i")
    case False
    with "1.prems"(2) show ?thesis by (subst (asm) siftUp.simps) simp
  next
    case True
    let ?p = "getParent i"
    have pi: "?p < i" using True by (rule parent_lt)
    with "1.prems"(1) have p: "?p < length h" by simp
    show ?thesis
    proof (cases "compareEntries cmp (h ! i) (h ! ?p)")
      case (Inl e')
      with True "1.prems" have "e' = e"
        by (subst (asm) siftUp.simps) (simp add: Let_def)
      with Inl have "cmp (value_of (h ! i)) (value_of (h ! ?p)) = Inl e"
        by (auto simp: compareEntries_def split: sum.splits)
      with p pi show ?thesis by (intro exI [of _ ?p]) simp
    next
      case (Inr c)
      show ?thesis
      proof (cases "c \<ge> 0")
        case ge: True
        with Inr True "1.prems" show ?thesis
          by (subst (asm) siftUp.simps) (simp add: Let_def)
      next
        case False
        let ?h = "swap h i ?p"
        have nth: "?h ! k = (if k = ?p then h ! i else if k = i then h ! ?p else h ! k)" for k
          using "1.prems"(1) p by (rule swap_nth)
        from Inr True "1.prems"(1) False
        have "siftUp cmp h i = siftUp cmp ?h ?p"
          by (subst siftUp.simps) (simp add: Let_def)
        with "1.prems"(2) have "fst (siftUp cmp ?h ?p) = Some e" by simp
        then have "\<exists>j. j < length ?h \<and> j \<noteq> ?p \<and>
            cmp (value_of (?h ! ?p)) (value_of (?h ! j)) = Inl e"
          using True "1.prems"(1) False p
          by (intro "1.IH" [OF _ refl _ Inr]) (simp_all add: length_swap)
        then obtain j where j: "j < length h" "j \<noteq> ?p"
            "cmp (value_of (h ! i)) (value_of (?h ! j)) = Inl e"
          by (auto simp: length_swap nth)
        show ?thesis
        proof (cases "j = i")
          case True
          with j(3) have "cmp (value_of (h ! i)) (value_of (h ! ?p)) = Inl e"
            using j(2) by (simp add: nth)
          with p pi show ?thesis by (intro exI [of _ ?p]) simp
        next
          case False
          with j show ?thesis by (intro exI [of _ j]) (simp add: nth)
        qed
      qed
    qed
  qed
qed

lemma smallest_of_error:
  "smallest_of cmp h i = Inl e \<Longrightarrow> \<exists>a b. cmp a b = Inl e"
  by (auto simp: smallest_of_def Let_def compareEntries_def split: if_splits sum.splits)

lemma siftDown_mset: "mset (snd (siftDown cmp h i)) = mset h"
proof (induction cmp h i rule: siftDown.induct)
  case (1 cmp h i)
  show ?case
  proof (cases "smallest_of cmp h i")
    case (Inl e)
    then show ?thesis by (subst siftDown.simps) simp
  next
    case (Inr s)
    show ?thesis
    proof (cases "s = i")
      case True
      with Inr show ?thesis by (subst siftDown.simps) simp
    next
      case False
      with Inr have "siftDown cmp h i = siftDown cmp (swap h i s) s"
        by (subst siftDown.simps) simp
      moreover have "mset (snd (siftDown cmp (swap h i s) s)) = mset (swap h i s)"
        using Inr False by (rule "1.IH")
      moreover have "i < length h" "s < length h"
        using smallest_of_range [OF Inr False] by simp_all
      ultimately show ?thesis by (simp add: mset_swap_heap)
    qed
  qed
qed

lemma siftDown_error:
  "fst (siftDown cmp h i) = Some e \<Longrightarrow> \<exists>a b. cmp a b = Inl e"
proof (induction cmp h i rule: siftDown.induct)
  case (1 cmp h i)
  show ?case
  proof (cases "smallest_of cmp h i")
    case (Inl e')
    with "1.prems" have "e' = e" by (subst (asm) siftDown.simps) simp
    with Inl show ?thesis by (auto dest: smallest_of_error)
  next
    case (Inr s)
    show ?thesis
    proof (cases "s = i")
      case True
      with Inr "1.prems" show ?thesis by (subst (asm) siftDown.simps) simp
    next
      case False
      with Inr have "siftDown cmp h i = siftDown cmp (swap h i s) s"
        by (subst siftDown.simps) simp
      with "1.prems" have "fst (siftDown cmp (swap h i s) s) = Some e" by simp
      with Inr False show ?thesis by (rule "1.IH")
    qed
  qed
qed

lemma reheapify_mset: "mset (snd (reheapify cmp h k)) = mset h"
proof (induction k arbitrary: h)
  case 0
  show ?case by simp
next
  case (Suc i)
  obtain r h1 where sd: "siftDown cmp h i = (r, h1)"
    by (cases "siftDown cmp h i")
  with siftDown_mset [of cmp h i] have h1: "mset h1 = mset h" by simp
  show ?case
  proof (cases r)
    case None
    with sd Suc.IH [of h1] h1 show ?thesis by simp
  next
    case (Some e)
    with sd h1 show ?thesis by simp
  qed
qed

lemma reheapify_error:
  "fst (reheapify cmp h k) = Some e \<Longrightarrow> \<exists>a b. cmp a b = Inl e"
proof (induction k arbitrary: h)
  case 0
  then show ?case by simp
next
  case (Suc i)
  obtain r h1 where sd: "siftDown cmp h i = (r, h1)"
    by (cases "siftDown cmp h i")
  show ?case
  proof (cases r)
    case None
    with sd Suc.prems have "fst (reheapify cmp h1 i) = Some e" by simp
    then show ?thesis by (rule Suc.IH)
  next
    case (Some e')
    with sd Suc.prems have "fst (siftDown cmp h i) = Some e" by simp
    then show ?thesis by (rule siftDown_error)
  qed
qed

lemma siftUp_single: "siftUp cmp [e] 0 = (None, [e])"
  by (subst siftUp.simps) simp

lemma siftUp_pair_error:
  "cmp (value_of e2) (value_of e1) = Inl err \<Longrightarrow> siftUp cmp [e1, e2] (Suc 0) = (Some err, [e1, e2])"
  by (subst siftUp.simps) (simp add: Let_def getParent_def compareEntries_def)

lemma siftDown_single: "siftDown cmp [e] 0 = (None, [e])"
  by (subst siftDown.simps) (simp add: smallest_of_def getLeft_def getRight_def)

lemma default_mixed_error:
  "v1 = JNumber n \<and> v2 = JOther x \<or> v1 = JOther x \<and> v2 = JNumber n \<Longrightarrow>
   defaultComparator lc v2 v1 = Inl no_comparator_error"
  by (auto simp: no_comparator_error_def)

subsection \<open>The public operations on a heap\<close>

lemma heap_ok_append:
  assumes "heap_ok cmp h"
  shows "up_inv cmp (h @ [e]) (length h)"
  unfolding up_inv_def
proof (intro conjI allI impI; elim conjE)
  fix j
  assume j: "0 < j" "j < length (h @ [e])" "j \<noteq> length h"
  then have jl: "j < length h" by simp
  with parent_lt [OF j(1)] have "getParent j < length h" by simp
  moreover from assms j(1) jl have "le_entries cmp (h ! getParent j) (h ! j)"
    by (simp add: heap_ok_def)
  ultimately show "le_entries cmp ((h @ [e]) ! getParent j) ((h @ [e]) ! j)"
    using jl by (simp add: nth_append)
next
  fix j
  assume "0 < j" "j < length (h @ [e])" "getParent j = length h"
  with parent_lt [of j] have False by simp
  then show "le_entries cmp ((h @ [e]) ! getParent (length h)) ((h @ [e]) ! j)" ..
qed

lemma enqueue_heap:
  assumes eo: "entry_order (comparator q) (insert \<lparr>value_of = v, id_of = seq q\<rparr> (set (heap q)))"
    and hp: "heap_property q"
  shows "\<exists>q'. enqueue q v = (None, q') \<and> heap_property q' \<and>
              comparator q' = comparator q \<and> seq q' = seq q + 1 \<and>
              mset (heap q') = add_mset \<lparr>value_of = v, id_of = seq q\<rparr> (mset (heap q))"
proof -
  let ?e = "\<lparr>value_of = v, id_of = seq q\<rparr>"
  let ?h = "heap q @ [?e]"
  have "entry_order (comparator q) (set ?h)" using eo by simp
  moreover have "length (heap q) < length ?h" by simp
  moreover have "up_inv (comparator q) ?h (length (heap q))"
    using hp unfolding heap_property_def by (rule heap_ok_append)
  ultimately obtain h' where h': "siftUp (comparator q) ?h (length (heap q)) = (None, h')"
      "heap_ok (comparator q) h'" "mset h' = mset ?h"
    using siftUp_heap by blast
  then show ?thesis
    by (simp add: enqueue_def Let_def heap_property_def)
qed

lemma heap_root_min:
  assumes eo: "entry_order cmp (set h)" and hp: "heap_ok cmp h"
  shows "j < length h \<Longrightarrow> le_entries cmp (h ! 0) (h ! j)"
proof (induction j rule: less_induct)
  case (less j)
  show ?case
  proof (cases "j = 0")
    case True
    with less.prems eo_refl [OF eo, of "h ! 0"] show ?thesis by simp
  next
    case False
    then have j: "0 < j" by simp
    have pj: "getParent j < j" using j by (rule parent_lt)
    with less.prems have pl: "getParent j < length h" by simp
    have 1: "le_entries cmp (h ! 0) (h ! getParent j)"
      using pj pl by (rule less.IH)
    have 2: "le_entries cmp (h ! getParent j) (h ! j)"
      using hp j less.prems by (simp add: heap_ok_def)
    have "0 < length h" using less.prems by (cases h) simp_all
    then have "h ! 0 \<in> set h" "h ! getParent j \<in> set h" "h ! j \<in> set h"
      using less.prems pl by simp_all
    from eo_trans [OF eo this 1 2] show ?thesis .
  qed
qed

lemma mset_move_last:
  assumes "2 \<le> length h"
  shows "mset ((butlast h)[0 := last h]) = mset h - {#h ! 0#}"
proof -
  from assms obtain x xs where h: "h = x # xs" and xs: "xs \<noteq> []"
    by (cases h) (auto simp: Suc_le_eq)
  from xs have "mset (butlast xs) + {#last xs#} = mset xs"
    by (metis append_butlast_last_id mset_append mset.simps(1) mset.simps(2) add_mset_add_single)
  with h xs show ?thesis by simp
qed

lemma dequeue_heap:
  assumes eo: "entry_order (comparator q) (set (heap q))"
    and hp: "heap_property q" and ne: "heap q \<noteq> []"
  shows "\<exists>q'. dequeue q = (Inr (Some (value_of (heap q ! 0))), q') \<and> heap_property q' \<and>
              comparator q' = comparator q \<and> seq q' = seq q \<and>
              mset (heap q') = mset (heap q) - {#heap q ! 0#}"
proof (cases "butlast (heap q) = []")
  case True
  with ne have "heap q = [heap q ! 0]"
    by (cases "heap q") (auto split: if_splits)
  then have "mset (heap q) - {#heap q ! 0#} = {#}"
    by (metis add_mset_remove_trivial mset.simps(1) mset.simps(2))
  with True ne show ?thesis
    by (simp add: dequeue_def isEmpty_def Let_def heap_property_def heap_ok_def)
next
  case False
  let ?cmp = "comparator q"
  let ?h = "(butlast (heap q))[0 := last (heap q)]"
  have len: "2 \<le> length (heap q)"
    using False by (cases "heap q") (auto simp: Suc_le_eq split: if_splits)
  have sub: "set ?h \<subseteq> set (heap q)"
    using mset_move_last [OF len] by (metis in_diffD mset_subset_eqD set_mset_mset subsetI)
  have eo': "entry_order ?cmp (set ?h)"
    using eo sub by (rule eo_subset)
  have inv: "down_inv ?cmp 0 ?h 0"
    unfolding down_inv_def
  proof (intro conjI allI impI; elim conjE)
    fix j
    assume j: "0 < j" "j < length ?h" "getParent j \<noteq> 0"
    then have jl: "j < length (heap q) - 1" by simp
    have pj: "getParent j < j" using j(1) by (rule parent_lt)
    have "le_entries ?cmp (heap q ! getParent j) (heap q ! j)"
      using hp j(1) jl by (simp add: heap_property_def heap_ok_def)
    with j jl pj show "le_entries ?cmp (?h ! getParent j) (?h ! j)"
      by (simp add: nth_butlast)
  next
    fix j
    assume "(0::nat) < 0"
    then show "le_entries ?cmp (?h ! getParent 0) (?h ! j)" by simp
  qed
  have "0 < length ?h" using len by simp
  with eo' inv obtain h' where h': "siftDown ?cmp ?h 0 = (None, h')"
      "heap_from ?cmp 0 h'" "mset h' = mset ?h"
    using siftDown_heap [of ?cmp ?h 0 0] by blast
  with False ne mset_move_last [OF len] show ?thesis
    by (simp add: dequeue_def isEmpty_def Let_def heap_property_def heap_from_0)
qed

lemma map_value_entries_from: "map value_of (entries_from n vs) = vs"
  by (induction vs arbitrary: n) simp_all

lemma enqueue_all_heap:
  assumes tp: "total_preorder_on S cmp"
  shows "comparator q = cmp \<Longrightarrow> value_of ` set (heap q) \<subseteq> S \<Longrightarrow> set vs \<subseteq> S \<Longrightarrow>
    heap_property q \<Longrightarrow>
    \<exists>q'. enqueue_all q vs = (None, q') \<and> heap_property q' \<and> comparator q' = cmp \<and>
         seq q' = seq q + int (length vs) \<and>
         mset (heap q') = mset (heap q) + mset (entries_from (seq q) vs)"
proof (induction vs arbitrary: q)
  case Nil
  then show ?case by simp
next
  case (Cons v vs)
  let ?e = "\<lparr>value_of = v, id_of = seq q\<rparr>"
  have "value_of ` insert ?e (set (heap q)) \<subseteq> S"
    using Cons.prems(2,3) by simp
  with tp have "entry_order cmp (insert ?e (set (heap q)))"
    by (rule entry_order_of_total_preorder)
  with Cons.prems(1,4) obtain q1 where q1: "enqueue q v = (None, q1)" "heap_property q1"
      "comparator q1 = cmp" "seq q1 = seq q + 1"
      "mset (heap q1) = add_mset ?e (mset (heap q))"
    using enqueue_heap [of q v] by auto
  have "set (heap q1) = insert ?e (set (heap q))"
    using q1(5) by (metis set_mset_add_mset_insert set_mset_mset)
  with Cons.prems(2,3) have "value_of ` set (heap q1) \<subseteq> S" by simp
  moreover have "set vs \<subseteq> S" using Cons.prems(3) by simp
  ultimately obtain q' where "enqueue_all q1 vs = (None, q')" "heap_property q'"
      "comparator q' = cmp" "seq q' = seq q1 + int (length vs)"
      "mset (heap q') = mset (heap q1) + mset (entries_from (seq q1) vs)"
    using Cons.IH [OF q1(3) _ _ q1(2)] by blast
  with q1 show ?case by simp
qed

lemma heap_property_empty: "heap q = [] \<Longrightarrow> heap_property q"
  by (simp add: heap_property_def heap_ok_def)

lemma setComparator_heap:
  assumes "entry_order cmp (set (heap q))"
  shows "\<exists>q'. setComparator q cmp = (None, q') \<and> heap_property q' \<and> comparator q' = cmp \<and>
              seq q' = seq q \<and> mset (heap q') = mset (heap q)"
proof -
  have "heap_from cmp (length (heap q) div 2) (heap q)"
    by (rule heap_from_half) simp
  with assms obtain h' where "reheapify cmp (heap q) (length (heap q) div 2) = (None, h')"
      "heap_ok cmp h'" "mset h' = mset (heap q)"
    using reheapify_heap [of cmp "heap q" "length (heap q) div 2"] by blast
  then show ?thesis
    by (simp add: setComparator_def Let_def heap_property_def)
qed

lemma drain_sorted:
  "entry_order (comparator q) (set (heap q)) \<Longrightarrow> heap_property q \<Longrightarrow>
   \<exists>es q'. drain q out = (Inr (out @ map value_of es), q') \<and> heap q' = [] \<and>
           comparator q' = comparator q \<and> seq q' = seq q \<and> mset es = mset (heap q) \<and>
           sorted_wrt (le_entries (comparator q)) es"
proof (induction "length (heap q)" arbitrary: q out)
  case 0
  then have "drain q out = (Inr out, q)"
    by (subst drain.simps) (simp add: isEmpty_def)
  with 0 show ?case by simp
next
  case (Suc n)
  let ?cmp = "comparator q" and ?top = "heap q ! 0"
  from Suc.hyps(2) have ne: "heap q \<noteq> []" by auto
  then have top: "?top \<in> set (heap q)" by simp
  obtain q1 where q1: "dequeue q = (Inr (Some (value_of ?top)), q1)" "heap_property q1"
      "comparator q1 = ?cmp" "seq q1 = seq q" "mset (heap q1) = mset (heap q) - {#?top#}"
    using dequeue_heap [OF Suc.prems ne] by blast
  have sub: "set (heap q1) \<subseteq> set (heap q)"
    using q1(5) by (metis in_diffD set_mset_mset subsetI)
  have "size (mset (heap q1)) = size (mset (heap q)) - 1"
    using q1(5) top by (simp add: size_Diff_singleton)
  with Suc.hyps(2) have len: "n = length (heap q1)" by simp
  have eo1: "entry_order (comparator q1) (set (heap q1))"
    using Suc.prems(1) sub q1(3) by (simp add: eo_subset)
  obtain es q' where es: "drain q1 (out @ [value_of ?top]) =
        (Inr ((out @ [value_of ?top]) @ map value_of es), q')"
      "heap q' = []" "comparator q' = comparator q1" "seq q' = seq q1"
      "mset es = mset (heap q1)" "sorted_wrt (le_entries (comparator q1)) es"
    using Suc.hyps(1) [OF len eo1 q1(2)] by blast
  have "drain q out = drain q1 (out @ [value_of ?top])"
    using ne q1(1) by (subst drain.simps) (simp add: isEmpty_def)
  with es(1) have 1: "drain q out = (Inr (out @ map value_of (?top # es)), q')"
    by simp
  have 2: "mset (?top # es) = mset (heap q)"
    using es(5) q1(5) top by simp
  have "le_entries ?cmp ?top e" if "e \<in> set es" for e
  proof -
    from that es(5) have "e \<in> set (heap q1)" by (metis set_mset_mset)
    with sub have "e \<in> set (heap q)" by blast
    then obtain j where "j < length (heap q)" "e = heap q ! j"
      by (auto simp: in_set_conv_nth)
    with heap_root_min [OF Suc.prems(1), of j] Suc.prems(2) show ?thesis
      by (simp add: heap_property_def)
  qed
  with es(6) q1(3) have 3: "sorted_wrt (le_entries ?cmp) (?top # es)"
    by simp
  from 1 2 3 es(2-4) q1(3,4) show ?case
    by (intro exI [of _ "?top # es"] exI [of _ q']) simp
qed

lemma clone_entries:
  "map (\<lambda>e. \<lparr>value_of = value_of e, id_of = id_of e\<rparr>) h = (h :: 'a Entry list)"
  by (simp add: map_idI)

lemma toSortedArray_drain:
  assumes eo: "entry_order (comparator q) (set (heap q))" and hp: "heap_property q"
  shows "toSortedArray q = (fst (drain q []), q)"
proof -
  have "reheapify (comparator q) (heap q) (length (heap q) div 2) = (None, heap q)"
    using eo hp unfolding heap_property_def by (rule reheapify_noop) simp
  then show ?thesis
    by (cases q) (simp add: toSortedArray_def Let_def clone_entries)
qed

lemma entries_from_ids:
  "e \<in> set (entries_from n vs) \<Longrightarrow> n \<le> id_of e \<and> id_of e < n + int (length vs)"
proof (induction vs arbitrary: n)
  case Nil
  then show ?case by simp
next
  case (Cons v vs)
  from Cons.prems have "e = \<lparr>value_of = v, id_of = n\<rparr> \<or> e \<in> set (entries_from (n + 1) vs)"
    by simp
  then show ?case
  proof
    assume "e = \<lparr>value_of = v, id_of = n\<rparr>"
    then show ?thesis by simp
  next
    assume "e \<in> set (entries_from (n + 1) vs)"
    from Cons.IH [OF this] show ?thesis by simp
  qed
qed

lemma entries_from_sorted: "sorted (map id_of (entries_from n vs))"
proof (induction vs arbitrary: n)
  case Nil
  show ?case by simp
next
  case (Cons v vs)
  have "n \<le> id_of e" if "e \<in> set (entries_from (n + 1) vs)" for e
    using entries_from_ids [OF that] by simp
  with Cons.IH [of "n + 1"] show ?case by auto
qed

lemma entries_from_distinct: "distinct (map id_of (entries_from n vs))"
proof (induction vs arbitrary: n)
  case Nil
  show ?case by simp
next
  case (Cons v vs)
  have "n \<noteq> id_of e" if "e \<in> set (entries_from (n + 1) vs)" for e
    using entries_from_ids [OF that] by simp
  with Cons.IH [of "n + 1"] show ?case by auto
qed

lemma entries_from_values: "value_of ` set (entries_from n vs) = set vs"
  using map_value_entries_from [of n vs] by (metis set_map)

lemma sorted_ids_unique:
  assumes m: "mset es = mset (entries_from n vs)" and s: "sorted (map id_of es)"
  shows "es = entries_from n vs"
proof -
  let ?ef = "entries_from n vs"
  have "mset (map id_of es) = mset (map id_of ?ef)"
    using m by simp
  from properties_for_sort [OF this s] have "sort (map id_of ?ef) = map id_of es" .
  moreover have "sort (map id_of ?ef) = map id_of ?ef"
    using entries_from_sorted by (rule sorted_sort_id)
  ultimately have eq: "map id_of es = map id_of ?ef" by simp
  have "set es = set ?ef" using m by (metis set_mset_mset)
  moreover have "inj_on id_of (set ?ef)"
    using entries_from_distinct [of n vs] by (simp add: distinct_map)
  ultimately have "inj_on id_of (set es \<union> set ?ef)" by simp
  from inj_on_map_eq_map [OF this] eq show ?thesis by simp
qed

lemma constructor_heap:
  assumes tp: "total_preorder_on (set vs) cmp"
  shows "\<exists>q. constructor cmp vs = (None, q) \<and> heap_property q \<and> comparator q = cmp \<and>
             seq q = int (length vs) \<and> mset (heap q) = mset (entries_from 0 vs)"
proof -
  let ?q0 = "\<lparr>heap = [], comparator = cmp, seq = 0\<rparr>"
  have "\<exists>q'. enqueue_all ?q0 vs = (None, q') \<and> heap_property q' \<and> comparator q' = cmp \<and>
         seq q' = seq ?q0 + int (length vs) \<and>
         mset (heap q') = mset (heap ?q0) + mset (entries_from (seq ?q0) vs)"
    using tp by (rule enqueue_all_heap) (simp_all add: heap_property_empty)
  then show ?thesis by (simp add: constructor_def)
qed

lemma constructor_entry_order:
  assumes tp: "total_preorder_on (set vs) cmp"
    and q: "mset (heap q) = mset (entries_from 0 vs)"
  shows "entry_order cmp (set (heap q))"
proof -
  have "set (heap q) = set (entries_from 0 vs)"
    using q by (metis set_mset_mset)
  then have "value_of ` set (heap q) \<subseteq> set vs"
    by (simp add: entries_from_values)
  with tp show ?thesis by (rule entry_order_of_total_preorder)
qed

lemma drain_sorted_nil:
  assumes "entry_order (comparator q) (set (heap q))" and "heap_property q"
  shows "\<exists>es q'. drain q [] = (Inr (map value_of es), q') \<and> heap q' = [] \<and>
           comparator q' = comparator q \<and> seq q' = seq q \<and> mset es = mset (heap q) \<and>
           sorted_wrt (le_entries (comparator q)) es"
  using drain_sorted [OF assms, of "[]"] by simp

lemma enqueue_mset:
  "mset (heap (snd (enqueue q v))) = add_mset \<lparr>value_of = v, id_of = seq q\<rparr> (mset (heap q))"
proof -
  let ?h = "heap q @ [\<lparr>value_of = v, id_of = seq q\<rparr>]"
  obtain r h' where su: "siftUp (comparator q) ?h (length (heap q)) = (r, h')"
    by (cases "siftUp (comparator q) ?h (length (heap q))")
  with siftUp_mset [of "comparator q" ?h "length (heap q)"] have "mset h' = mset ?h"
    by simp
  with su show ?thesis by (simp add: enqueue_def Let_def)
qed

lemma enqueue_comparator: "comparator (snd (enqueue q v)) = comparator q"
  by (simp add: enqueue_def Let_def split: prod.splits)

lemma enqueue_size: "size_pq (snd (enqueue q v)) = size_pq q + 1"
proof -
  have "size (mset (heap (snd (enqueue q v)))) = size (mset (heap q)) + 1"
    by (simp add: enqueue_mset)
  then show ?thesis by (simp add: size_pq_def)
qed

lemma enqueue_error:
  assumes "fst (enqueue q v) = Some e"
  shows "\<exists>a b. comparator q a b = Inl e"
proof -
  let ?h = "heap q @ [\<lparr>value_of = v, id_of = seq q\<rparr>]"
  from assms have "fst (siftUp (comparator q) ?h (length (heap q))) = Some e"
    by (simp add: enqueue_def Let_def split: prod.splits)
  moreover have "length (heap q) < length ?h" by simp
  ultimately show ?thesis by (intro siftUp_error [of "length (heap q)" ?h])
qed

lemma enqueue_error_stored:
  assumes "fst (enqueue q w) = Some e"
  shows "\<exists>s\<in>set (heap q). comparator q w (value_of s) = Inl e"
proof -
  let ?n = "length (heap q)"
  let ?h = "heap q @ [\<lparr>value_of = w, id_of = seq q\<rparr>]"
  from assms have "fst (siftUp (comparator q) ?h ?n) = Some e"
    by (simp add: enqueue_def Let_def split: prod.splits)
  moreover have "?n < length ?h" by simp
  ultimately obtain j where j: "j < length ?h" "j \<noteq> ?n"
      "comparator q (value_of (?h ! ?n)) (value_of (?h ! j)) = Inl e"
    using siftUp_error_at [of ?n ?h "comparator q" e] by blast
  from j(1,2) have jl: "j < ?n" by simp
  with j(3) have "comparator q w (value_of (heap q ! j)) = Inl e"
    by (simp add: nth_append)
  with jl show ?thesis by (intro bexI [of _ "heap q ! j"]) simp_all
qed

lemma enqueue_empty: "isEmpty q \<Longrightarrow> fst (enqueue q v) = None"
  by (simp add: isEmpty_def enqueue_def siftUp_single)

lemma dequeue_comparator: "comparator (snd (dequeue q)) = comparator q"
  by (simp add: dequeue_def Let_def split: prod.splits option.splits)

lemma dequeue_size: "size_pq (snd (dequeue q)) = size_pq q - 1"
proof (cases "isEmpty q")
  case True
  then show ?thesis by (simp add: dequeue_def size_pq_def isEmpty_def)
next
  case False
  then show ?thesis by (simp add: dequeue_length size_pq_def)
qed

lemma dequeue_error:
  assumes "fst (dequeue q) = Inl e"
  shows "\<exists>a b. comparator q a b = Inl e"
proof -
  let ?h = "(butlast (heap q))[0 := last (heap q)]"
  from assms have "fst (siftDown (comparator q) ?h 0) = Some e"
    by (auto simp: dequeue_def Let_def split: prod.splits option.splits if_splits)
  then show ?thesis by (rule siftDown_error)
qed

lemma enqueue_all_never_fails:
  "never_fails (comparator q) \<Longrightarrow>
   \<exists>q'. enqueue_all q vs = (None, q') \<and> comparator q' = comparator q \<and>
        size_pq q' = size_pq q + length vs"
proof (induction vs arbitrary: q)
  case Nil
  show ?case by simp
next
  case (Cons v vs)
  obtain r q1 where e: "enqueue q v = (r, q1)" by (cases "enqueue q v")
  have "r = None"
  proof (cases r)
    case (Some err)
    with e enqueue_error [of q v err] Cons.prems show ?thesis
      by (auto dest: never_fails_no_error)
  qed simp
  moreover from e have q1: "comparator q1 = comparator q" "size_pq q1 = size_pq q + 1"
    using enqueue_comparator [of q v] enqueue_size [of q v] by simp_all
  moreover from Cons.prems q1(1) have "never_fails (comparator q1)" by simp
  from Cons.IH [OF this] obtain q' where "enqueue_all q1 vs = (None, q')"
      "comparator q' = comparator q1" "size_pq q' = size_pq q1 + length vs"
    by blast
  ultimately show ?case using e by simp
qed

lemma dequeue_n_never_fails:
  "never_fails (comparator q) \<Longrightarrow>
   \<exists>q'. dequeue_n k q = (None, q') \<and> size_pq q' = size_pq q - k"
proof (induction k arbitrary: q)
  case 0
  show ?case by simp
next
  case (Suc k)
  obtain r q1 where d: "dequeue q = (r, q1)" by (cases "dequeue q")
  have "\<exists>x. r = Inr x"
  proof (cases r)
    case (Inl err)
    with d dequeue_error [of q err] Suc.prems show ?thesis
      by (auto dest: never_fails_no_error)
  qed simp
  then obtain x where x: "r = Inr x" ..
  from d have q1: "comparator q1 = comparator q" "size_pq q1 = size_pq q - 1"
    using dequeue_comparator [of q] dequeue_size [of q] by simp_all
  from Suc.prems q1(1) have "never_fails (comparator q1)" by simp
  from Suc.IH [OF this] obtain q' where "dequeue_n k q1 = (None, q')"
      "size_pq q' = size_pq q1 - k"
    by blast
  with d x q1 show ?case by simp
qed

lemma ids_ok_mset:
  assumes "ids_ok q" "mset (heap q') = mset (heap q)" "seq q' = seq q"
  shows "ids_ok q'"
proof -
  have "mset (map id_of (heap q')) = mset (map id_of (heap q))"
    using assms(2) by simp
  then have "distinct (map id_of (heap q')) = distinct (map id_of (heap q))"
    by (rule mset_eq_imp_distinct_iff)
  moreover have "set (heap q') = set (heap q)"
    using assms(2) by (metis set_mset_mset)
  ultimately show ?thesis using assms(1,3) by (simp add: ids_ok_def)
qed

lemma enqueue_ids_ok:
  assumes "ids_ok q"
  shows "ids_ok (snd (enqueue q v))"
proof -
  let ?e = "\<lparr>value_of = v, id_of = seq q\<rparr>"
  let ?q1 = "q\<lparr>heap := ?e # heap q, seq := seq q + 1\<rparr>"
  have "seq q \<notin> id_of ` set (heap q)"
    using assms by (auto simp: ids_ok_def)
  with assms have "ids_ok ?q1"
    by (auto simp: ids_ok_def)
  moreover have "mset (heap (snd (enqueue q v))) = mset (heap ?q1)"
    by (simp add: enqueue_mset)
  moreover have "seq (snd (enqueue q v)) = seq ?q1"
    by (simp add: enqueue_seq)
  ultimately show ?thesis by (rule ids_ok_mset)
qed

lemma dequeue_mset:
  "mset (heap (snd (dequeue q))) = (if isEmpty q then {#} else mset (heap q) - {#heap q ! 0#})"
proof (cases "isEmpty q")
  case True
  then show ?thesis by (simp add: dequeue_def isEmpty_def)
next
  case ne: False
  show ?thesis
  proof (cases "butlast (heap q) = []")
    case True
    with ne have "heap q = [heap q ! 0]"
      by (cases "heap q") (auto simp: isEmpty_def split: if_splits)
    then have "mset (heap q) - {#heap q ! 0#} = {#}"
      by (metis add_mset_remove_trivial mset.simps(1) mset.simps(2))
    with True ne show ?thesis
      by (simp add: dequeue_def isEmpty_def Let_def)
  next
    case False
    let ?h = "(butlast (heap q))[0 := last (heap q)]"
    have len: "2 \<le> length (heap q)"
      using False by (cases "heap q") (auto simp: Suc_le_eq split: if_splits)
    obtain r h' where sd: "siftDown (comparator q) ?h 0 = (r, h')"
      by (cases "siftDown (comparator q) ?h 0")
    with siftDown_mset [of "comparator q" ?h 0] have "mset h' = mset ?h" by simp
    with mset_move_last [OF len] have "mset h' = mset (heap q) - {#heap q ! 0#}" by simp
    with sd False ne show ?thesis
      by (cases r) (simp_all add: dequeue_def isEmpty_def Let_def)
  qed
qed

lemma dequeue_ids_ok:
  assumes "ids_ok q"
  shows "ids_ok (snd (dequeue q))"
proof (cases "heap q")
  case Nil
  with assms show ?thesis by (simp add: dequeue_def isEmpty_def)
next
  case (Cons x xs)
  let ?q1 = "q\<lparr>heap := xs\<rparr>"
  from assms Cons have "ids_ok ?q1"
    by (simp add: ids_ok_def)
  moreover have "mset (heap (snd (dequeue q))) = mset (heap ?q1)"
    using Cons by (simp add: dequeue_mset isEmpty_def)
  moreover have "seq (snd (dequeue q)) = seq ?q1"
    by (simp add: dequeue_seq)
  ultimately show ?thesis by (rule ids_ok_mset)
qed

lemma setComparator_ids_ok:
  assumes "ids_ok q"
  shows "ids_ok (snd (setComparator q cmp))"
proof -
  obtain r h' where rh: "reheapify cmp (heap q) (length (heap q) div 2) = (r, h')"
    by (cases "reheapify cmp (heap q) (length (heap q) div 2)")
  with reheapify_mset [of cmp "heap q" "length (heap q) div 2"] have "mset h' = mset (heap q)"
    by simp
  with rh have "mset (heap (snd (setComparator q cmp))) = mset (heap q)"
    by (simp add: setComparator_def Let_def)
  with assms show ?thesis
    by (rule ids_ok_mset) (simp add: setComparator_seq)
qed

lemma clear_ids_ok: "ids_ok (clear q)"
  by (simp add: ids_ok_def clear_def)

lemma enqueue_all_ids_ok:
  "ids_ok q \<Longrightarrow> ids_ok (snd (enqueue_all q vs))"
proof (induction vs arbitrary: q)
  case Nil
  then show ?case by simp
next
  case (Cons v vs)
  obtain r q1 where e: "enqueue q v = (r, q1)" by (cases "enqueue q v")
  with enqueue_ids_ok [OF Cons.prems, of v] have q1: "ids_ok q1" by simp
  show ?case
  proof (cases r)
    case None
    with e Cons.IH [OF q1] show ?thesis by simp
  next
    case (Some err)
    with e q1 show ?thesis by simp
  qed
qed

lemma reachable_heap:
  "reachable S (total_preorder_on S) q \<Longrightarrow>
   total_preorder_on S (comparator q) \<and> value_of ` set (heap q) \<subseteq> S \<and> heap_property q"
proof (induction rule: reachable.induct)
  case (construct cmp initial q)
  let ?q0 = "\<lparr>heap = [], comparator = cmp, seq = 0\<rparr>"
  have "\<exists>q'. enqueue_all ?q0 initial = (None, q') \<and> heap_property q' \<and>
      comparator q' = cmp \<and> seq q' = seq ?q0 + int (length initial) \<and>
      mset (heap q') = mset (heap ?q0) + mset (entries_from (seq ?q0) initial)"
    using construct(1) by (rule enqueue_all_heap) (use construct(2) in \<open>simp_all add: heap_property_empty\<close>)
  with construct(3) have q: "heap_property q" "comparator q = cmp"
      "mset (heap q) = mset (entries_from 0 initial)"
    by (auto simp: constructor_def)
  from q(3) have "set (heap q) = set (entries_from 0 initial)"
    by (metis set_mset_mset)
  then have "value_of ` set (heap q) = set initial"
    by (simp add: entries_from_values)
  with q construct(1,2) show ?case by simp
next
  case (enqueued q v)
  let ?e = "\<lparr>value_of = v, id_of = seq q\<rparr>"
  from enqueued have sub: "value_of ` insert ?e (set (heap q)) \<subseteq> S"
    by simp
  with enqueued.IH have "entry_order (comparator q) (insert ?e (set (heap q)))"
    by (intro entry_order_of_total_preorder [of S]) simp_all
  with enqueued.IH obtain q' where q': "enqueue q v = (None, q')" "heap_property q'"
      "comparator q' = comparator q" "mset (heap q') = add_mset ?e (mset (heap q))"
    using enqueue_heap [of q v] by blast
  from q'(4) have "set (heap q') = insert ?e (set (heap q))"
    by (metis set_mset_add_mset_insert set_mset_mset)
  with sub q' enqueued.IH show ?case by simp
next
  case (dequeued q)
  show ?case
  proof (cases "heap q = []")
    case True
    with dequeued.IH show ?thesis by (simp add: dequeue_def isEmpty_def)
  next
    case False
    from dequeued.IH have "entry_order (comparator q) (set (heap q))"
      by (intro entry_order_of_total_preorder [of S]) simp_all
    with dequeued.IH False obtain q' where q': "dequeue q = (Inr (Some (value_of (heap q ! 0))), q')"
        "heap_property q'" "comparator q' = comparator q"
        "mset (heap q') = mset (heap q) - {#heap q ! 0#}"
      using dequeue_heap [of q] by blast
    from q'(4) have "set (heap q') \<subseteq> set (heap q)"
      by (metis in_diffD set_mset_mset subsetI)
    with dequeued.IH have "value_of ` set (heap q') \<subseteq> S" by blast
    with q' dequeued.IH show ?thesis by simp
  qed
next
  case (cleared q)
  then show ?case by (simp add: clear_def heap_property_empty)
next
  case (comparator_set q cmp)
  then have "entry_order cmp (set (heap q))"
    by (intro entry_order_of_total_preorder [of S]) simp_all
  then obtain q' where q': "setComparator q cmp = (None, q')" "heap_property q'"
      "comparator q' = cmp" "mset (heap q') = mset (heap q)"
    using setComparator_heap [of cmp q] by blast
  from q'(4) have "set (heap q') = set (heap q)"
    by (metis set_mset_mset)
  with q' comparator_set show ?case by simp
next
  case (sorted_array q)
  then show ?case by (simp add: toSortedArray_this)
qed

lemma reachable_ids_ok: "reachable S P q \<Longrightarrow> ids_ok q"
proof (induction rule: reachable.induct)
  case (construct cmp initial q)
  have "ids_ok \<lparr>heap = [], comparator = cmp, seq = 0\<rparr>"
    by (simp add: ids_ok_def)
  from enqueue_all_ids_ok [OF this, of initial] construct(3) show ?case
    by (simp add: constructor_def)
next
  case (enqueued q v)
  then show ?case by (simp add: enqueue_ids_ok)
next
  case (dequeued q)
  then show ?case by (simp add: dequeue_ids_ok)
next
  case (cleared q)
  show ?case by (rule clear_ids_ok)
next
  case (comparator_set q cmp)
  then show ?case by (simp add: setComparator_ids_ok)
next
  case (sorted_array q)
  then show ?case by (simp add: toSortedArray_this)
qed

lemma strict_total_entries:
  assumes tp: "total_preorder_on (set (toArray q)) (comparator q)" and ids: "ids_ok q"
  shows "strict_total_order_on (set (heap q)) (lt_entries (comparator q))"
proof -
  let ?cmp = "comparator q" and ?E = "set (heap q)"
  have eo: "entry_order ?cmp ?E"
    using tp by (rule entry_order_of_total_preorder) (simp add: toArray_def)
  have inj: "inj_on id_of ?E"
    using ids by (simp add: ids_ok_def distinct_map)
  have irrefl: "\<not> lt_entries ?cmp a a" if "a \<in> ?E" for a
    using eo_sign [OF eo that that] eo_refl [OF eo that] by simp
  have trans: "lt_entries ?cmp a d"
    if "a \<in> ?E" "b \<in> ?E" "d \<in> ?E" "lt_entries ?cmp a b" "lt_entries ?cmp b d" for a b d
    using that(4) lt_imp_le [OF that(5)] by (rule eo_lt_le_trans [OF eo that(1-3)])
  have total: "lt_entries ?cmp a b \<or> lt_entries ?cmp b a"
    if E: "a \<in> ?E" "b \<in> ?E" and ne: "a \<noteq> b" for a b
  proof (rule ccontr)
    assume "\<not> (lt_entries ?cmp a b \<or> lt_entries ?cmp b a)"
    then have le: "le_entries ?cmp b a" "le_entries ?cmp a b"
      using eo_sign [OF eo E] eo_sign [OF eo E(2) E(1)] by simp_all
    from E have S: "value_of a \<in> set (toArray q)" "value_of b \<in> set (toArray q)"
      by (simp_all add: toArray_def)
    obtain n where n: "?cmp (value_of a) (value_of b) = Inr n"
      using tp_defined [OF tp S] by blast
    obtain m where m: "?cmp (value_of b) (value_of a) = Inr m"
      using tp_defined [OF tp S(2) S(1)] by blast
    have nm: "n < 0 \<longleftrightarrow> 0 < m" by (rule tp_sign [OF tp S n m])
    have mn: "m < 0 \<longleftrightarrow> 0 < n" by (rule tp_sign [OF tp S(2) S(1) m n])
    from le n m have "(if n \<noteq> 0 then n else id_of a - id_of b) \<le> 0"
        "(if m \<noteq> 0 then m else id_of b - id_of a) \<le> 0"
      by (simp_all add: le_entries_def compareEntries_def)
    with nm mn have "id_of a = id_of b"
      by (cases "n = 0"; cases "m = 0") simp_all
    with inj E ne show False by (auto dest: inj_onD)
  qed
  show ?thesis
    unfolding strict_total_order_on_def
  proof (intro conjI ballI impI)
    fix a assume "a \<in> ?E"
    then show "\<not> lt_entries ?cmp a a" by (rule irrefl)
  next
    fix a b d
    assume "a \<in> ?E" "b \<in> ?E" "d \<in> ?E" "lt_entries ?cmp a b" "lt_entries ?cmp b d"
    then show "lt_entries ?cmp a d" by (rule trans)
  next
    fix a b
    assume "a \<in> ?E" "b \<in> ?E" "a \<noteq> b"
    then show "lt_entries ?cmp a b \<or> lt_entries ?cmp b a" by (rule total)
  qed
qed

lemma enqueue_all_comparator: "comparator (snd (enqueue_all q vs)) = comparator q"
proof (induction vs arbitrary: q)
  case Nil
  show ?case by simp
next
  case (Cons v vs)
  obtain r q1 where e: "enqueue q v = (r, q1)" by (cases "enqueue q v")
  with enqueue_comparator [of q v] have "comparator q1 = comparator q" by simp
  with e Cons.IH [of q1] show ?case by (cases r) simp_all
qed

lemma constructor_comparator: "comparator (snd (constructor cmp vs)) = cmp"
  by (simp add: constructor_def enqueue_all_comparator)

subsection \<open>A function that is not a total preorder\<close>

text \<open>
  The hypothesis on the comparator in the result on \<open>toSortedArray\<close> is needed: with the
  function that returns \<open>-1\<close> on every pair, which is no total preorder,
  \<open>toSortedArray\<close> and a drain of the same queue return different sequences.
\<close>

lemma always_before_not_total_preorder: "\<not> total_preorder_on {1, 2} always_before"
  by (auto simp: total_preorder_on_def always_before_def lt_values_def le_values_def)

lemma always_before_sorted_differs:
  "fst (toSortedArray (snd (constructor always_before [1, 2, 3]))) = Inr [2, 1, 3] \<and>
   fst (drain (snd (constructor always_before [1, 2, 3])) []) = Inr [3, 1, 2]"
  by code_simp

section \<open>The claims\<close>

text \<open>
  C1. In every state reachable through the constructor, \<open>enqueue\<close>, \<open>dequeue\<close>, \<open>clear\<close>,
  \<open>setComparator\<close> and \<open>toSortedArray\<close> (\<open>toArray\<close> and the other observers return no
  state), with values from a set \<open>S\<close> and comparators that are total preorders on \<open>S\<close>,
  every non-root index \<open>i\<close> of the storage satisfies
  \<open>order(heap[parent(i)], heap[i]) \<le> 0\<close>, where \<open>order\<close> is the comparator result and, on
  zero, the difference of the ids. \<open>S\<close> may be the whole value type; for the default
  comparator it can be the numbers.
\<close>

theorem heap_invariant:
  "reachable S (total_preorder_on S) q \<Longrightarrow> heap_property q"
  by (simp add: reachable_heap)

theorem heap_invariant_witness:
  "reachable UNIV (total_preorder_on UNIV)
     (snd (dequeue (snd (enqueue (snd (constructor int_cmp [3, 1])) 2)))) \<and>
   heap_property (snd (dequeue (snd (enqueue (snd (constructor int_cmp [3, 1])) 2)))) \<and>
   map value_of (heap (snd (enqueue (snd (constructor int_cmp [3, 1])) 2))) = [1, 3, 2] \<and>
   map value_of (heap (snd (dequeue (snd (enqueue (snd (constructor int_cmp [3, 1])) 2)))))
     = [2, 3]"
proof -
  let ?q1 = "snd (constructor int_cmp [3, 1])"
  have tp: "total_preorder_on UNIV int_cmp"
    using total_preorder_int_cmp by (simp add: total_preorder_def)
  have "fst (constructor int_cmp [3, 1]) = None"
    by code_simp
  then have "constructor int_cmp [3, 1] = (None, ?q1)"
    by (metis prod.collapse)
  with tp have "reachable UNIV (total_preorder_on UNIV) ?q1"
    by (intro reachable.construct [of _ int_cmp "[3, 1]"]) simp_all
  then have "reachable UNIV (total_preorder_on UNIV) (snd (enqueue ?q1 2))"
    by (rule reachable.enqueued) simp
  then have r: "reachable UNIV (total_preorder_on UNIV) (snd (dequeue (snd (enqueue ?q1 2))))"
    by (rule reachable.dequeued)
  have 1: "map value_of (heap (snd (enqueue ?q1 2))) = [1, 3, 2]"
    by code_simp
  have 2: "map value_of (heap (snd (dequeue (snd (enqueue ?q1 2))))) = [2, 3]"
    by code_simp
  from r heap_invariant [OF r] 1 2 show ?thesis by (simp only: simp_thms)
qed

text \<open>
  C2. Values that all compare equal under the comparator (it returns zero on every pair
  of them), enqueued into a queue constructed with that comparator and then dequeued
  until the queue is empty, come out in the order they were enqueued.
\<close>

theorem fifo_among_equals:
  assumes eq: "\<forall>a\<in>set vs. \<forall>b\<in>set vs. cmp a b = Inr 0"
  shows "\<exists>q q'. enqueue_all (snd (constructor cmp [])) vs = (None, q) \<and>
               drain q [] = (Inr vs, q') \<and> isEmpty q'"
proof -
  have tp: "total_preorder_on (set vs) cmp"
    using eq by (simp add: total_preorder_on_def lt_values_def le_values_def)
  obtain q where q: "constructor cmp vs = (None, q)" "heap_property q" "comparator q = cmp"
      "mset (heap q) = mset (entries_from 0 vs)"
    using constructor_heap [OF tp] by blast
  have eo: "entry_order (comparator q) (set (heap q))"
    using constructor_entry_order [OF tp q(4)] q(3) by simp
  obtain es q' where d: "drain q [] = (Inr (map value_of es), q')" "heap q' = []"
      "mset es = mset (heap q)" "sorted_wrt (le_entries (comparator q)) es"
    using drain_sorted_nil [OF eo q(2)] by blast
  have set_es: "set es = set (entries_from 0 vs)"
    using d(3) q(4) by (metis set_mset_mset)
  have "id_of a \<le> id_of b" if "a \<in> set es" "b \<in> set es" "le_entries cmp a b" for a b
  proof -
    from that(1,2) set_es have "value_of a \<in> set vs" "value_of b \<in> set vs"
      using entries_from_values [of 0 vs] by blast+
    with eq have "cmp (value_of a) (value_of b) = Inr 0" by blast
    with that(3) show ?thesis
      by (simp add: le_entries_def compareEntries_def)
  qed
  with d(4) q(3) have "sorted_wrt (\<lambda>a b. id_of a \<le> id_of b) es"
    by (auto intro: sorted_wrt_mono_rel [of es "le_entries cmp"])
  then have "sorted (map id_of es)"
    by (simp add: sorted_map)
  with d(3) q(4) have "es = entries_from 0 vs"
    by (intro sorted_ids_unique) simp
  then have "map value_of es = vs"
    by (simp add: map_value_entries_from)
  with d(1,2) have "drain q [] = (Inr vs, q')" "isEmpty q'"
    by (simp_all add: isEmpty_def)
  moreover have "enqueue_all (snd (constructor cmp [])) vs = (None, q)"
    using q(1) by (simp add: constructor_def)
  ultimately show ?thesis by blast
qed

theorem fifo_among_equals_witness:
  "priority_cmp (''Joe'', 1) (''Anne'', 1) = Inr 0 \<and>
   fst (drain (snd (enqueue_all (snd (constructor priority_cmp []))
          [(''Joe'', 1), (''Anne'', 1), (''Lucius'', 1), (''Mina'', 1)])) [])
     = Inr [(''Joe'', 1), (''Anne'', 1), (''Lucius'', 1), (''Mina'', 1)]"
proof -
  let ?vs = "[(''Joe'', 1), (''Anne'', 1), (''Lucius'', 1), (''Mina'', 1 :: int)]"
  have "\<forall>a\<in>set ?vs. \<forall>b\<in>set ?vs. priority_cmp a b = Inr 0"
    by (simp add: priority_cmp_def)
  from fifo_among_equals [OF this]
  obtain q q' where "enqueue_all (snd (constructor priority_cmp [])) ?vs = (None, q)"
    "drain q [] = (Inr ?vs, q')"
    by blast
  then have "fst (drain (snd (enqueue_all (snd (constructor priority_cmp [])) ?vs)) [])
      = Inr ?vs"
    by (simp only: fst_conv snd_conv)
  moreover have "priority_cmp (''Joe'', 1) (''Anne'', 1) = Inr 0"
    by (simp add: priority_cmp_def)
  ultimately show ?thesis by (simp only: simp_thms)
qed

text \<open>
  C3. For a comparator that is a total preorder on the values enqueued, \<open>toSortedArray\<close>
  on the queue that received the values returns exactly what draining a fresh queue seeded
  with the same values in the same order returns, and the queue it was called on is
  unchanged afterwards.
\<close>

theorem toSortedArray_correct:
  assumes tp: "total_preorder_on (set vs) cmp"
  shows "\<exists>q fresh out rest.
           enqueue_all (snd (constructor cmp [])) vs = (None, q) \<and>
           constructor cmp vs = (None, fresh) \<and>
           drain fresh [] = (Inr out, rest) \<and>
           toSortedArray q = (Inr out, q)"
proof -
  obtain q where q: "constructor cmp vs = (None, q)" "heap_property q" "comparator q = cmp"
      "mset (heap q) = mset (entries_from 0 vs)"
    using constructor_heap [OF tp] by blast
  have eo: "entry_order (comparator q) (set (heap q))"
    using constructor_entry_order [OF tp q(4)] q(3) by simp
  obtain es q' where d: "drain q [] = (Inr (map value_of es), q')" "mset es = mset (heap q)"
    using drain_sorted_nil [OF eo q(2)] by blast
  have "toSortedArray q = (Inr (map value_of es), q)"
    using toSortedArray_drain [OF eo q(2)] d(1) by simp
  moreover have "enqueue_all (snd (constructor cmp [])) vs = (None, q)"
    using q(1) by (simp add: constructor_def)
  ultimately show ?thesis using q(1) d(1) by auto
qed

theorem toSortedArray_correct_witness:
  "total_preorder_on
     (set [(''Joe'', 1), (''June'', 0), (''Carmen'', 2), (''Mike'', 0), (''Anne'', 1)])
     priority_cmp \<and>
   fst (toSortedArray (snd (enqueue_all (snd (constructor priority_cmp []))
          [(''Joe'', 1), (''June'', 0), (''Carmen'', 2), (''Mike'', 0), (''Anne'', 1)])))
     = Inr [(''June'', 0), (''Mike'', 0), (''Joe'', 1), (''Anne'', 1), (''Carmen'', 2)] \<and>
   fst (drain (snd (constructor priority_cmp
          [(''Joe'', 1), (''June'', 0), (''Carmen'', 2), (''Mike'', 0), (''Anne'', 1)])) [])
     = Inr [(''June'', 0), (''Mike'', 0), (''Joe'', 1), (''Anne'', 1), (''Carmen'', 2)]"
proof -
  let ?vs = "[(''Joe'', 1), (''June'', 0), (''Carmen'', 2), (''Mike'', 0), (''Anne'', 1 :: int)]"
  have tp: "total_preorder_on (set ?vs) priority_cmp"
    using total_preorder_priority_cmp unfolding total_preorder_def
    by (rule total_preorder_on_subset) simp
  from toSortedArray_correct [OF tp]
  obtain q fresh out rest where
    "enqueue_all (snd (constructor priority_cmp [])) ?vs = (None, q)"
    "constructor priority_cmp ?vs = (None, fresh)"
    "drain fresh [] = (Inr out, rest)"
    "toSortedArray q = (Inr out, q)"
    by blast
  then have "fst (toSortedArray (snd (enqueue_all (snd (constructor priority_cmp [])) ?vs)))
      = fst (drain (snd (constructor priority_cmp ?vs)) [])"
    by (simp only: fst_conv snd_conv)
  moreover have "fst (drain (snd (constructor priority_cmp ?vs)) [])
      = Inr [(''June'', 0), (''Mike'', 0), (''Joe'', 1), (''Anne'', 1), (''Carmen'', 2)]"
    by code_simp
  ultimately show ?thesis using tp by (simp only: simp_thms)
qed

text \<open>
  C4, as amended. An \<open>enqueue\<close> into an empty queue invokes no comparison and succeeds
  for every value, and an \<open>enqueue\<close> fails only with the error raised by a comparison of
  the new value with a stored one; so it is with the default comparator. Enqueueing one
  numeric and one non-numeric, non-text value into a default-comparator queue, in either
  order: the first \<open>enqueue\<close> succeeds; the second raises the ordering error at the
  comparison of its sift-up, leaving both values stored in insertion order; the two
  dequeues that follow raise nothing and return the two values.
\<close>

theorem default_comparator_lazy:
  "(isEmpty q0 \<longrightarrow> fst (enqueue q0 v) = None) \<and>
   (fst (enqueue q w) = Some e \<longrightarrow>
      (\<exists>s\<in>set (heap q). comparator q w (value_of s) = Inl e)) \<and>
   (v1 = JNumber n \<and> v2 = JOther x \<or> v1 = JOther x \<and> v2 = JNumber n \<longrightarrow>
     fst (enqueue (snd (constructor (defaultComparator lc) [])) v1) = None \<and>
     enqueue (snd (enqueue (snd (constructor (defaultComparator lc) [])) v1)) v2
       = (Some no_comparator_error,
          \<lparr>heap = [\<lparr>value_of = v1, id_of = 0\<rparr>, \<lparr>value_of = v2, id_of = 1\<rparr>],
           comparator = defaultComparator lc, seq = 2\<rparr>) \<and>
     dequeue \<lparr>heap = [\<lparr>value_of = v1, id_of = 0\<rparr>, \<lparr>value_of = v2, id_of = 1\<rparr>],
           comparator = defaultComparator lc, seq = 2\<rparr>
       = (Inr (Some v1),
          \<lparr>heap = [\<lparr>value_of = v2, id_of = 1\<rparr>], comparator = defaultComparator lc, seq = 2\<rparr>) \<and>
     dequeue \<lparr>heap = [\<lparr>value_of = v2, id_of = 1\<rparr>], comparator = defaultComparator lc, seq = 2\<rparr>
       = (Inr (Some v2), \<lparr>heap = [], comparator = defaultComparator lc, seq = 2\<rparr>))"
proof (intro conjI impI)
  show "fst (enqueue q0 v) = None" if "isEmpty q0"
    using that by (rule enqueue_empty)
  show "\<exists>s\<in>set (heap q). comparator q w (value_of s) = Inl e" if "fst (enqueue q w) = Some e"
    using that by (rule enqueue_error_stored)
next
  assume mixed: "v1 = JNumber n \<and> v2 = JOther x \<or> v1 = JOther x \<and> v2 = JNumber n"
  show "fst (enqueue (snd (constructor (defaultComparator lc) [])) v1) = None"
    by (simp add: constructor_def enqueue_def siftUp_single)
  show "enqueue (snd (enqueue (snd (constructor (defaultComparator lc) [])) v1)) v2
       = (Some no_comparator_error,
          \<lparr>heap = [\<lparr>value_of = v1, id_of = 0\<rparr>, \<lparr>value_of = v2, id_of = 1\<rparr>],
           comparator = defaultComparator lc, seq = 2\<rparr>)"
    using default_mixed_error [OF mixed, of lc]
    by (simp add: constructor_def enqueue_def siftUp_single siftUp_pair_error)
  show "dequeue \<lparr>heap = [\<lparr>value_of = v1, id_of = 0\<rparr>, \<lparr>value_of = v2, id_of = 1\<rparr>],
           comparator = defaultComparator lc, seq = 2\<rparr>
       = (Inr (Some v1),
          \<lparr>heap = [\<lparr>value_of = v2, id_of = 1\<rparr>], comparator = defaultComparator lc, seq = 2\<rparr>)"
    by (simp add: dequeue_def isEmpty_def siftDown_single)
  show "dequeue \<lparr>heap = [\<lparr>value_of = v2, id_of = 1\<rparr>], comparator = defaultComparator lc, seq = 2\<rparr>
       = (Inr (Some v2), \<lparr>heap = [], comparator = defaultComparator lc, seq = 2\<rparr>)"
    by (simp add: dequeue_def isEmpty_def)
qed

theorem default_comparator_lazy_witness:
  "isEmpty (clear (snd (constructor (defaultComparator c_locale_compare) [JNumber 5]))) \<and>
   fst (enqueue (clear (snd (constructor (defaultComparator c_locale_compare) [JNumber 5])))
          (JOther 7)) = None \<and>
   fst (enqueue (snd (constructor (defaultComparator c_locale_compare) [JString ''a'']))
          (JNumber 2)) = Some no_comparator_error \<and>
   defaultComparator c_locale_compare (JNumber 2) (JString ''a'') = Inl no_comparator_error \<and>
   fst (enqueue (snd (constructor (defaultComparator c_locale_compare) [JNumber 1]))
          (JNumber 2)) = None \<and>
   fst (enqueue (snd (enqueue (snd (constructor (defaultComparator c_locale_compare) []))
          (JNumber 1))) (JOther 0)) = Some no_comparator_error \<and>
   fst (dequeue \<lparr>heap = [\<lparr>value_of = JNumber 1, id_of = 0\<rparr>, \<lparr>value_of = JOther 0, id_of = 1\<rparr>],
           comparator = defaultComparator c_locale_compare, seq = 2\<rparr>) = Inr (Some (JNumber 1))"
proof -
  let ?lc = "c_locale_compare"
  let ?emp = "clear (snd (constructor (defaultComparator ?lc) [JNumber 5]))"
  let ?q = "snd (constructor (defaultComparator ?lc) [JString ''a''])"
  note inst = default_comparator_lazy [where ?q0.0 = ?emp and v = "JOther 7" and q = ?q
      and w = "JNumber 2" and e = no_comparator_error and ?v1.0 = "JNumber 1" and n = 1
      and ?v2.0 = "JOther 0" and x = 0 and lc = ?lc]
  have e: "isEmpty ?emp"
    by (simp add: isEmpty_def clear_def)
  have f: "fst (enqueue ?q (JNumber 2)) = Some no_comparator_error"
    unfolding no_comparator_error_def by code_simp
  have c: "defaultComparator ?lc (JNumber 2) (JString ''a'') = Inl no_comparator_error"
    by (simp add: no_comparator_error_def)
  have g: "fst (enqueue (snd (constructor (defaultComparator ?lc) [JNumber 1])) (JNumber 2)) = None"
    by code_simp
  from inst e f c g show ?thesis by simp
qed

text \<open>
  C4, as written, says that both enqueues succeed and that the error is raised during the
  two dequeues. On the number 1 and then an object, the second \<open>enqueue\<close> raises the error
  and both dequeues return normally.
\<close>

theorem default_comparator_counterexample:
  "fst (enqueue (snd (constructor (defaultComparator c_locale_compare) [])) (JNumber 1)) = None \<and>
   fst (enqueue (snd (enqueue (snd (constructor (defaultComparator c_locale_compare) []))
          (JNumber 1))) (JOther 0)) = Some no_comparator_error \<and>
   fst (dequeue (snd (enqueue (snd (enqueue (snd (constructor
          (defaultComparator c_locale_compare) [])) (JNumber 1))) (JOther 0))))
     = Inr (Some (JNumber 1)) \<and>
   fst (dequeue (snd (dequeue (snd (enqueue (snd (enqueue (snd (constructor
          (defaultComparator c_locale_compare) [])) (JNumber 1))) (JOther 0))))))
     = Inr (Some (JOther 0))"
  unfolding no_comparator_error_def by code_simp

text \<open>
  C5. After \<open>setComparator(c2)\<close>, for \<open>c2\<close> a total preorder on the stored values, the call
  has returned normally, the storage holds the same entries, the heap property holds
  under the order of \<open>c2\<close> with id tie-breaking and, unless the queue is empty, the next
  \<open>dequeue\<close> returns the value of a stored entry that orders before or equal to every
  stored entry under \<open>c2\<close>.
\<close>

theorem setComparator_reheapifies:
  assumes tp: "total_preorder_on (set (toArray q)) c2"
  shows "\<exists>q'. setComparator q c2 = (None, q') \<and> comparator q' = c2 \<and> heap_property q' \<and>
              mset (heap q') = mset (heap q) \<and>
              (isEmpty q \<or>
               (\<exists>m. m \<in> set (heap q) \<and> (\<forall>e\<in>set (heap q). le_entries c2 m e) \<and>
                    fst (dequeue q') = Inr (Some (value_of m))))"
proof -
  have eo: "entry_order c2 (set (heap q))"
    using tp by (rule entry_order_of_total_preorder) (simp add: toArray_def)
  then obtain q' where q': "setComparator q c2 = (None, q')" "heap_property q'"
      "comparator q' = c2" "mset (heap q') = mset (heap q)"
    using setComparator_heap [of c2 q] by blast
  have set': "set (heap q') = set (heap q)"
    using q'(4) by (metis set_mset_mset)
  have "\<exists>m. m \<in> set (heap q) \<and> (\<forall>e\<in>set (heap q). le_entries c2 m e) \<and>
            fst (dequeue q') = Inr (Some (value_of m))" if "\<not> isEmpty q"
  proof -
    from that q'(4) have ne: "heap q' \<noteq> []"
      by (auto simp: isEmpty_def)
    have eo': "entry_order (comparator q') (set (heap q'))"
      using eo set' q'(3) by simp
    have "fst (dequeue q') = Inr (Some (value_of (heap q' ! 0)))"
      using dequeue_heap [OF eo' q'(2) ne] by auto
    moreover have "heap q' ! 0 \<in> set (heap q)"
      using ne set' by (metis length_greater_0_conv nth_mem)
    moreover have "le_entries c2 (heap q' ! 0) e" if "e \<in> set (heap q)" for e
    proof -
      from that set' have "e \<in> set (heap q')" by simp
      then obtain j where "j < length (heap q')" "e = heap q' ! j"
        by (auto simp: in_set_conv_nth)
      with heap_root_min [of c2 "heap q'" j] eo' q'(2,3) show ?thesis
        by (simp add: heap_property_def)
    qed
    ultimately show ?thesis by blast
  qed
  with q' show ?thesis by blast
qed

theorem setComparator_reheapifies_witness:
  "total_preorder_on (set (toArray (snd (constructor int_cmp [1, 2, 3])))) rev_cmp \<and>
   peek (snd (constructor int_cmp [1, 2, 3])) = Some 1 \<and>
   fst (setComparator (snd (constructor int_cmp [1, 2, 3])) rev_cmp) = None \<and>
   heap_property (snd (setComparator (snd (constructor int_cmp [1, 2, 3])) rev_cmp)) \<and>
   fst (dequeue (snd (setComparator (snd (constructor int_cmp [1, 2, 3])) rev_cmp)))
     = Inr (Some 3)"
proof -
  let ?q = "snd (constructor int_cmp [1, 2, 3])"
  have tp: "total_preorder_on (set (toArray ?q)) rev_cmp"
    using total_preorder_rev_cmp unfolding total_preorder_def
    by (rule total_preorder_on_subset) simp
  from setComparator_reheapifies [OF tp]
  obtain q' where "setComparator ?q rev_cmp = (None, q')" "heap_property q'"
    by blast
  then have "fst (setComparator ?q rev_cmp) = None"
    "heap_property (snd (setComparator ?q rev_cmp))"
    by simp_all
  moreover have "peek ?q = Some 1"
    by code_simp
  moreover have "fst (dequeue (snd (setComparator ?q rev_cmp))) = Inr (Some 3)"
    by code_simp
  ultimately show ?thesis using tp by simp
qed

text \<open>
  C6. On an empty queue \<open>dequeue\<close> returns the absent result and \<open>peek\<close> returns the
  absent result; neither throws, and the queue \<open>dequeue\<close> leaves behind is the queue it
  was given (\<open>peek\<close> only reads).
\<close>

theorem empty_queue_reads:
  "isEmpty q \<Longrightarrow> dequeue q = (Inr None, q) \<and> peek q = None"
  by (simp add: dequeue_def peek_def isEmpty_def)

theorem empty_queue_reads_witness:
  "isEmpty \<lparr>heap = [], comparator = int_cmp, seq = 0\<rparr> \<and>
   dequeue \<lparr>heap = [], comparator = int_cmp, seq = 0\<rparr>
     = (Inr None, \<lparr>heap = [], comparator = int_cmp, seq = 0\<rparr>) \<and>
   peek \<lparr>heap = [], comparator = int_cmp, seq = 0\<rparr> = None"
  using empty_queue_reads [of "\<lparr>heap = [], comparator = int_cmp, seq = 0\<rparr>"]
  by (simp add: isEmpty_def)

text \<open>
  C7. On a queue that is empty, with a comparator that never fails, \<open>n\<close> enqueues
  followed by \<open>k \<le> n\<close> dequeues all return normally and leave \<open>size() = n - k\<close>.
\<close>

theorem size_round_trip:
  assumes nf: "never_fails (comparator q0)" and e: "isEmpty q0" and k: "k \<le> length vs"
  shows "\<exists>q q'. enqueue_all q0 vs = (None, q) \<and> dequeue_n k q = (None, q') \<and>
               size_pq q' = length vs - k"
proof -
  obtain q where q: "enqueue_all q0 vs = (None, q)" "comparator q = comparator q0"
      "size_pq q = size_pq q0 + length vs"
    using enqueue_all_never_fails [OF nf] by blast
  from nf q(2) have "never_fails (comparator q)" by simp
  from dequeue_n_never_fails [OF this, of k]
  obtain q' where "dequeue_n k q = (None, q')" "size_pq q' = size_pq q - k"
    by blast
  with q e show ?thesis by (simp add: isEmpty_def size_pq_def)
qed

theorem size_round_trip_witness:
  "never_fails (comparator (snd (constructor int_cmp []))) \<and>
   isEmpty (snd (constructor int_cmp [])) \<and> (2::nat) \<le> length [5, 3, 4 :: int] \<and>
   size_pq (snd (dequeue_n 2 (snd (enqueue_all (snd (constructor int_cmp [])) [5, 3, 4])))) = 1"
proof -
  let ?q0 = "snd (constructor int_cmp [])"
  have nf: "never_fails (comparator ?q0)"
    using never_fails_int_cmp by (simp add: constructor_def)
  have e: "isEmpty ?q0" by (simp add: constructor_def isEmpty_def)
  have k: "(2::nat) \<le> length [5, 3, 4 :: int]" by simp
  from size_round_trip [OF nf e k] nf e show ?thesis by auto
qed

text \<open>
  C8. The sequence counter is 0 after construction, every \<open>enqueue\<close> adds exactly 1 to
  it (also an \<open>enqueue\<close> that throws), \<open>clear\<close> resets it to 0, and \<open>dequeue\<close>,
  \<open>setComparator\<close> and \<open>toSortedArray\<close> leave it as it was. The observers \<open>peek\<close>,
  \<open>size\<close>, \<open>isEmpty\<close> and \<open>toArray\<close> write nothing: they are functions of the queue
  that return no state.
\<close>

theorem sequence_counter:
  "seq (snd (constructor cmp [])) = 0 \<and>
   seq (snd (enqueue q v)) = seq q + 1 \<and>
   seq (clear q) = 0 \<and>
   seq (snd (dequeue q)) = seq q \<and>
   seq (snd (setComparator q cmp)) = seq q \<and>
   seq (snd (toSortedArray q)) = seq q"
  by (simp add: enqueue_seq dequeue_seq setComparator_seq toSortedArray_this
        constructor_def clear_def)

text \<open>
  C9. If \<open>enqueue(value)\<close> throws, the error is one the comparator raised, and the queue
  it leaves behind holds one entry more than before, among them the new entry with the
  old counter as its id, and its counter is one greater.
\<close>

theorem enqueue_not_atomic:
  assumes "enqueue q v = (Some e, q')"
  shows "size_pq q' = size_pq q + 1 \<and> seq q' = seq q + 1 \<and>
         \<lparr>value_of = v, id_of = seq q\<rparr> \<in> set (heap q') \<and> v \<in> set (toArray q') \<and>
         (\<exists>a b. comparator q a b = Inl e)"
proof -
  from assms have q': "q' = snd (enqueue q v)" and f: "fst (enqueue q v) = Some e"
    by simp_all
  have m: "mset (heap q') = add_mset \<lparr>value_of = v, id_of = seq q\<rparr> (mset (heap q))"
    unfolding q' by (rule enqueue_mset)
  then have "\<lparr>value_of = v, id_of = seq q\<rparr> \<in> set (heap q')"
    by (metis set_mset_mset union_single_eq_member)
  then have "value_of \<lparr>value_of = v, id_of = seq q\<rparr> \<in> value_of ` set (heap q')"
    by (rule imageI)
  then have "v \<in> set (toArray q')"
    by (simp add: toArray_def)
  with \<open>\<lparr>value_of = v, id_of = seq q\<rparr> \<in> set (heap q')\<close> enqueue_error [OF f] show ?thesis
    unfolding q' by (simp add: enqueue_size enqueue_seq)
qed

theorem enqueue_not_atomic_witness:
  "enqueue (snd (constructor (defaultComparator c_locale_compare) [JNumber 1])) (JOther 0)
     = (Some no_comparator_error,
        snd (enqueue (snd (constructor (defaultComparator c_locale_compare) [JNumber 1])) (JOther 0))) \<and>
   size_pq (snd (constructor (defaultComparator c_locale_compare) [JNumber 1])) = 1 \<and>
   size_pq (snd (enqueue (snd (constructor (defaultComparator c_locale_compare) [JNumber 1]))
      (JOther 0))) = 2 \<and>
   toArray (snd (enqueue (snd (constructor (defaultComparator c_locale_compare) [JNumber 1]))
      (JOther 0))) = [JNumber 1, JOther 0]"
proof -
  let ?q = "snd (constructor (defaultComparator c_locale_compare) [JNumber 1])"
  have "fst (enqueue ?q (JOther 0)) = Some no_comparator_error"
    unfolding no_comparator_error_def by code_simp
  then have e: "enqueue ?q (JOther 0) = (Some no_comparator_error, snd (enqueue ?q (JOther 0)))"
    by (metis prod.collapse)
  have 1: "size_pq ?q = 1" by code_simp
  have 2: "toArray (snd (enqueue ?q (JOther 0))) = [JNumber 1, JOther 0]" by code_simp
  from enqueue_not_atomic [OF e] 1 have "size_pq (snd (enqueue ?q (JOther 0))) = 2"
    by simp
  with e 1 2 show ?thesis by (simp only: simp_thms)
qed

text \<open>
  C10. In every reachable state, whatever the comparators and whether or not an operation
  threw, the ids of the stored entries are pairwise distinct and each is below the
  sequence counter; every public operation preserves this; and when the active
  comparator is a total preorder on the stored values, "orders strictly before" (comparator
  result, then id) is a strict total order on the stored entries.
\<close>

theorem ids_invariant:
  "(reachable UNIV (\<lambda>cmp. True) q \<longrightarrow>
      ids_ok q \<and>
      (total_preorder_on (set (toArray q)) (comparator q) \<longrightarrow>
         strict_total_order_on (set (heap q)) (lt_entries (comparator q)))) \<and>
   (ids_ok q \<longrightarrow>
      ids_ok (snd (enqueue q v)) \<and> ids_ok (snd (dequeue q)) \<and> ids_ok (clear q) \<and>
      ids_ok (snd (setComparator q cmp)) \<and> ids_ok (snd (toSortedArray q)))"
  by (simp add: reachable_ids_ok strict_total_entries enqueue_ids_ok dequeue_ids_ok
        clear_ids_ok setComparator_ids_ok toSortedArray_this)

theorem ids_invariant_witness:
  "reachable UNIV (\<lambda>cmp. True) (snd (dequeue (snd (constructor int_cmp [3, 1, 2])))) \<and>
   total_preorder_on (set (toArray (snd (dequeue (snd (constructor int_cmp [3, 1, 2]))))))
     (comparator (snd (dequeue (snd (constructor int_cmp [3, 1, 2]))))) \<and>
   ids_ok (snd (dequeue (snd (constructor int_cmp [3, 1, 2])))) \<and>
   strict_total_order_on (set (heap (snd (dequeue (snd (constructor int_cmp [3, 1, 2]))))))
     (lt_entries (comparator (snd (dequeue (snd (constructor int_cmp [3, 1, 2])))))) \<and>
   ids_ok (snd (enqueue (snd (dequeue (snd (constructor int_cmp [3, 1, 2])))) 7)) \<and>
   map id_of (heap (snd (dequeue (snd (constructor int_cmp [3, 1, 2]))))) = [2, 0] \<and>
   seq (snd (dequeue (snd (constructor int_cmp [3, 1, 2])))) = 3"
proof -
  let ?q = "snd (dequeue (snd (constructor int_cmp [3, 1, 2])))"
  have "fst (constructor int_cmp [3, 1, 2]) = None"
    by code_simp
  then have "constructor int_cmp [3, 1, 2] = (None, snd (constructor int_cmp [3, 1, 2]))"
    by (metis prod.collapse)
  then have "reachable UNIV (\<lambda>cmp. True) (snd (constructor int_cmp [3, 1, 2]))"
    by (intro reachable.construct [of _ int_cmp "[3, 1, 2]"]) simp_all
  then have r: "reachable UNIV (\<lambda>cmp. True) ?q"
    by (rule reachable.dequeued)
  have "comparator ?q = int_cmp"
    by (simp only: dequeue_comparator constructor_comparator)
  then have tp: "total_preorder_on (set (toArray ?q)) (comparator ?q)"
    using total_preorder_on_subset [of UNIV int_cmp "set (toArray ?q)"] total_preorder_int_cmp
    by (simp add: total_preorder_def)
  note inst = ids_invariant [of ?q 7 int_cmp]
  have ids: "ids_ok ?q" using inst r by simp
  have 1: "map id_of (heap ?q) = [2, 0]" by code_simp
  have 2: "seq ?q = 3" by code_simp
  from inst r tp ids 1 2 show ?thesis by (simp only: simp_thms)
qed

end
